theory Spec2Isabelle
  imports Main "HOL-Library.Word"
begin

unbundle bit_operations_syntax

section \<open>Data model of \<open>compileengine/engine.py\<close>\<close>

text \<open>
  The engine is a Python \<open>StringIO\<close> with extra attributes. Its text is a \<open>string\<close>;
  every write of the engine happens at the end of the text (the engine only ever moves the
  position together with \<open>truncate(0); seek(0)\<close>), so the position is the length of the
  text and \<open>tell()\<close> is \<open>length\<close>.

  Exceptions are values: every operation returns the outcome together with the engine as
  the exception (or the return) leaves it, since Python keeps every mutation made before
  a raise.

  The attributes \<open>vars\<close> and \<open>funcs\<close> are the two symbol collections; no
  operation of the engine reads them, and they are modelled on their own further down.
\<close>

datatype error =
    NewBranch               \<comment> \<open>class NewBranch(Exception), the discovery escape signal\<close>
  | NotImplementedError     \<comment> \<open>raised by loop\<close>
  | TypeError               \<comment> \<open>FunctionCollection.__setattr__; write(None); len(None)\<close>
  | AttributeError          \<comment> \<open>attribute access on None or on an object without it\<close>
  | IndexError              \<comment> \<open>pop from an empty list\<close>
  | RecursionError          \<comment> \<open>Python's recursion limit\<close>
  | UserError               \<comment> \<open>an exception the routine raises itself\<close>

datatype 'a result = Ok 'a | Raise error

text \<open>
  An element of a path tuple: \<open>True\<close>, \<open>False\<close>, or the class \<open>NewBranch\<close> that
  \<open>_find_branches\<close> appends to a path it has expanded.
\<close>

datatype dec = DBool bool | DNewBranch

text \<open>
  An element of \<open>path_stack\<close>: the value pushed by \<open>branch\<close> or the function object
  pushed by \<open>call\<close>; a function object is its identity (a number).
\<close>

datatype state_key = KDecision dec | KFunc nat

datatype run_state = STATE_IDLE | STATE_BUILDING_BRANCHES | STATE_COMPILING

text \<open>
  \<open>EngineBlock\<close>. Blocks are mutable objects compared by identity, so they live in a store
  and are named by handles. The store is the engine attribute \<open>blocks\<close>: every block the
  engine creates is appended to it at creation, so the handle of a block is its index there.
\<close>

type_synonym handle = nat

record block =
  buff :: "string option"            \<comment> \<open>\<open>None\<close> until first assigned\<close>
  jumps :: "nat \<rightharpoonup> handle"
  offset :: int

definition EngineBlock :: block where
  "EngineBlock = \<lparr>buff = None, jumps = Map.empty, offset = -1\<rparr>"

definition pointer_size :: nat where
  "pointer_size = 4"

record engine =
  buffer :: string                             \<comment> \<open>the StringIO text, \<open>getvalue()\<close>\<close>
  state :: run_state
  stack :: "handle list"
  current_block :: "handle option"
  state_blocks :: "state_key list \<rightharpoonup> handle"
  path_stack :: "state_key list"
  blocks :: "block list"
  paths :: "dec list list"
  loops :: "nat list"
  path_id :: nat
  current_path :: "dec list"
  branch_id :: nat

definition Engine :: engine where
  "Engine = \<lparr>buffer = [], state = STATE_IDLE, stack = [], current_block = None,
     state_blocks = Map.empty, path_stack = [], blocks = [], paths = [], loops = [],
     path_id = 0, current_path = [], branch_id = 0\<rparr>"

section \<open>Buffer operations\<close>

text \<open>\<open>write_str\<close> is \<open>StringIO.write\<close> (the name \<open>write\<close> is taken by Isar).\<close>

definition write_str :: "string \<Rightarrow> engine \<Rightarrow> engine" where
  "write_str s e = e\<lparr>buffer := buffer e @ s\<rparr>"

definition tell :: "engine \<Rightarrow> nat" where
  "tell e = length (buffer e)"

definition getvalue :: "engine \<Rightarrow> string" where
  "getvalue e = buffer e"

definition reset :: "engine \<Rightarrow> engine" where
  \<comment> \<open>\<open>self.truncate(0); self.seek(0)\<close>\<close>
  "reset e = e\<lparr>buffer := []\<rparr>"

text \<open>
  \<open>chr((value >> (i*8)) & 0xFF)\<close>: Python's \<open>>>\<close> on an unbounded integer is the floor
  shift \<open>drop_bit\<close>; the mask leaves a code in 0..255, which \<open>chr\<close> turns into one character.
\<close>

definition value_byte :: "int \<Rightarrow> nat \<Rightarrow> char" where
  "value_byte v i = char_of ((drop_bit (i * 8) v) AND 255)"

definition value_bytes :: "int \<Rightarrow> int \<Rightarrow> string" where
  \<comment> \<open>\<open>for i in range(size): buff += chr(...)\<close>; \<open>range\<close> of a negative size is empty\<close>
  "value_bytes v sz = map (value_byte v) [0..<nat sz]"

definition write_value :: "int \<Rightarrow> int \<Rightarrow> engine \<Rightarrow> engine" where
  "write_value v sz e = write_str (value_bytes v sz) e"

section \<open>Blocks and the context stack\<close>

definition set_buff :: "handle \<Rightarrow> string \<Rightarrow> engine \<Rightarrow> engine" where
  \<comment> \<open>\<open>block.buff = s\<close>\<close>
  "set_buff h s e = e\<lparr>blocks := (blocks e)[h := (blocks e ! h)\<lparr>buff := Some s\<rparr>]\<rparr>"

text \<open>
  \<open>block.jumps[ofs] = self.current_block\<close>, as \<open>branch\<close> and \<open>call\<close> do it right after
  a \<open>push\<close> that returned. Both operands are blocks there: \<open>push\<close> returns only if there
  was a current block, and it leaves one.
\<close>

definition set_jump :: "handle option \<Rightarrow> nat \<Rightarrow> handle option \<Rightarrow> engine \<Rightarrow> engine" where
  "set_jump block ofs target e =
     (case (block, target) of
        (Some b, Some t) \<Rightarrow>
          e\<lparr>blocks := (blocks e)[b := (blocks e ! b)\<lparr>jumps := (jumps (blocks e ! b))(ofs \<mapsto> t)\<rparr>]\<rparr>
      | _ \<Rightarrow> e)"

text \<open>
  \<open>push(state)\<close>. The engine always passes a state (the decision or the function object), so
  the default \<open>state=None\<close>, which pushes a fresh \<open>object()\<close>, is not modelled.
\<close>

definition push :: "state_key \<Rightarrow> engine \<Rightarrow> unit result \<times> engine" where
  "push key e =
     (case current_block e of
        None \<Rightarrow> (Raise AttributeError, e)
      | Some block \<Rightarrow>
          let e1 = set_buff block (getvalue e) e;
              e2 = reset e1;
              e3 = e2\<lparr>stack := stack e2 @ [block]\<rparr>;
              e4 = e3\<lparr>path_stack := path_stack e3 @ [key]\<rparr>
          in (case state_blocks e4 (path_stack e4) of
                Some found \<Rightarrow> (Ok (), e4\<lparr>current_block := Some found\<rparr>)
              | None \<Rightarrow>
                  let new = length (blocks e4);
                      e5 = e4\<lparr>current_block := Some new\<rparr>;
                      e6 = e5\<lparr>blocks := blocks e5 @ [EngineBlock]\<rparr>
                  in (Ok (), e6\<lparr>state_blocks := (state_blocks e6)(path_stack e6 \<mapsto> new)\<rparr>)))"

definition pop :: "engine \<Rightarrow> unit result \<times> engine" where
  "pop e =
     (case current_block e of
        None \<Rightarrow> (Raise AttributeError, e)
      | Some cur \<Rightarrow>
          let e1 = set_buff cur (getvalue e) e in
          if stack e1 = [] then (Raise IndexError, e1)
          else
            let block = last (stack e1);
                e2 = e1\<lparr>stack := butlast (stack e1)\<rparr>
            in if path_stack e2 = [] then (Raise IndexError, e2)
               else
                 let e3 = e2\<lparr>path_stack := butlast (path_stack e2)\<rparr>;
                     e4 = reset (e3\<lparr>current_block := Some block\<rparr>)
                 in (case buff (blocks e4 ! block) of
                       None \<Rightarrow> (Raise TypeError, e4)
                     | Some s \<Rightarrow> (Ok (), write_str s e4)))"

section \<open>The instruction API\<close>

type_synonym condition = string

definition write_branch :: "bool \<Rightarrow> condition \<Rightarrow> engine \<Rightarrow> nat \<times> engine" where
  "write_branch branch_state cond e =
     (let ofs = tell e in (ofs, write_value 0 (int pointer_size) e))"

definition write_jump :: "engine \<Rightarrow> nat \<times> engine" where
  "write_jump e =
     (let e1 = write_value 0 (int pointer_size) e in (tell e1 - pointer_size, e1))"

definition branch :: "condition \<Rightarrow> engine \<Rightarrow> dec result \<times> engine" where
  "branch cond e =
     (if branch_id e < length (current_path e) then
        let val = current_path e ! branch_id e;
            e1 = e\<lparr>branch_id := branch_id e + 1\<rparr>
        in if state e1 = STATE_COMPILING then
             let old_block = current_block e1;
                 (true_ofs, e2) = write_branch True cond e1;
                 (false_ofs, e3) = write_branch False cond e2
             in (case push (KDecision val) e3 of
                   (Raise x, e4) \<Rightarrow> (Raise x, e4)
                 | (Ok _, e4) \<Rightarrow>
                     let e5 = (if val = DBool True
                               then set_jump old_block true_ofs (current_block e4) e4 else e4);
                         e6 = (if val = DBool False
                               then set_jump old_block false_ofs (current_block e5) e5 else e5)
                     in (Ok val, e6))
           else (Ok val, e1)
      else
        (Raise NewBranch,
         e\<lparr>paths := paths e @ [current_path e @ [DBool True]] @ [current_path e @ [DBool False]]\<rparr>))"

definition loop :: "condition \<Rightarrow> engine \<Rightarrow> bool result \<times> engine" where
  "loop cond e = (Raise NotImplementedError, e)"

definition unknown :: "int \<Rightarrow> int \<Rightarrow> engine \<Rightarrow> engine" where
  \<comment> \<open>returns the constant token \<open>'1+1'\<close>\<close>
  "unknown v sz e = (if state e = STATE_COMPILING then write_value v sz e else e)"

text \<open>
  \<open>call(new_func)\<close> is \<open>call_enter\<close>, the run of \<open>new_func\<close>, then \<open>call_exit\<close>
  (\<open>write_end\<close> does nothing).
\<close>

definition call_enter :: "nat \<Rightarrow> engine \<Rightarrow> unit result \<times> engine" where
  "call_enter new_func e =
     (if state e = STATE_COMPILING then
        let block = current_block e;
            (ofs, e1) = write_jump e
        in (case push (KFunc new_func) e1 of
              (Raise x, e2) \<Rightarrow> (Raise x, e2)
            | (Ok _, e2) \<Rightarrow> (Ok (), set_jump block ofs (current_block e2) e2))
      else (Ok (), e))"

definition call_exit :: "engine \<Rightarrow> unit result \<times> engine" where
  "call_exit e = (if state e = STATE_COMPILING then pop e else (Ok (), e))"

section \<open>Routines\<close>

text \<open>
  The routine given to \<open>compile\<close> is caller code; the engine sees it only through the calls
  it makes on the engine. A routine is therefore the tree of those calls:
  \<^item> \<open>Return\<close>: the routine returns;
  \<^item> \<open>Write s k\<close>: \<open>engine.write(s)\<close>, then \<open>k\<close>;
  \<^item> \<open>WriteValue v size k\<close>: \<open>engine.write_value(v, size)\<close>, then \<open>k\<close>;
  \<^item> \<open>Unknown v size k\<close>: \<open>engine.unknown(v, size)\<close>, then \<open>k\<close>;
  \<^item> \<open>Branch c kt kf\<close>: \<open>if engine.branch(c): kt else: kf\<close>;
  \<^item> \<open>Loop c k\<close>: \<open>engine.loop(c)\<close>, then \<open>k\<close>;
  \<^item> \<open>Call f body k\<close>: \<open>engine.call(f)\<close> for the function object of identity \<open>f\<close> whose
    body is \<open>body\<close>, then \<open>k\<close>;
  \<^item> \<open>IfCompiling kt kf\<close>: \<open>if engine.state == engine.STATE_COMPILING: kt else: kf\<close>,
    a routine that does not behave the same in both phases;
  \<^item> \<open>Throw\<close>: the routine raises an exception of its own, one that is none of the
    engine's.
\<close>

datatype routine =
    Return
  | Write string routine
  | WriteValue int int routine
  | Unknown int int routine
  | Branch condition routine routine
  | Loop condition routine
  | Call nat routine routine
  | IfCompiling routine routine
  | Throw

text \<open>Python truthiness of what \<open>branch\<close> returns; a class object is true.\<close>

fun truthy :: "dec \<Rightarrow> bool" where
  "truthy (DBool b) = b"
| "truthy DNewBranch = True"

fun exec :: "routine \<Rightarrow> engine \<Rightarrow> unit result \<times> engine" where
  "exec Return e = (Ok (), e)"
| "exec (Write s k) e = exec k (write_str s e)"
| "exec (WriteValue v sz k) e = exec k (write_value v sz e)"
| "exec (Unknown v sz k) e = exec k (unknown v sz e)"
| "exec (Branch c kt kf) e =
     (case branch c e of
        (Raise x, e1) \<Rightarrow> (Raise x, e1)
      | (Ok val, e1) \<Rightarrow> if truthy val then exec kt e1 else exec kf e1)"
| "exec (Loop c k) e =
     (case loop c e of
        (Raise x, e1) \<Rightarrow> (Raise x, e1)
      | (Ok _, e1) \<Rightarrow> exec k e1)"
| "exec (Call f body k) e =
     (case call_enter f e of
        (Raise x, e1) \<Rightarrow> (Raise x, e1)
      | (Ok _, e1) \<Rightarrow>
          (case exec body e1 of
             (Raise x, e2) \<Rightarrow> (Raise x, e2)
           | (Ok _, e2) \<Rightarrow>
               (case call_exit e2 of
                  (Raise x, e3) \<Rightarrow> (Raise x, e3)
                | (Ok _, e3) \<Rightarrow> exec k e3)))"
| "exec (IfCompiling kt kf) e = (if state e = STATE_COMPILING then exec kt e else exec kf e)"
| "exec Throw e = (Raise UserError, e)"

section \<open>Discovery: \<open>_find_branches\<close>\<close>

text \<open>
  The \<open>while self.path_id < len(self.paths)\<close> loop. It may run for ever in Python; here
  not returning is the value \<open>None\<close>.
\<close>

partial_function (option) find_loop :: "routine \<Rightarrow> engine \<Rightarrow> (unit result \<times> engine) option" where
  "find_loop func e =
     (if path_id e < length (paths e) then
        let e1 = e\<lparr>current_path := paths e ! path_id e\<rparr>;
            e2 = e1\<lparr>branch_id := 0\<rparr>
        in (case exec func e2 of
              (Raise x, e3) \<Rightarrow>
                if x = NewBranch then
                  find_loop func
                    (e3\<lparr>paths := (paths e3)[path_id e3 := current_path e3 @ [DNewBranch]],
                        path_id := path_id e3 + 1\<rparr>)
                else Some (Raise x, e3)
            | (Ok _, e3) \<Rightarrow> find_loop func (e3\<lparr>path_id := path_id e3 + 1\<rparr>))
      else Some (Ok (), e))"

declare find_loop.simps [code]

text \<open>\<open>path[-1:]\<close>: the last element as a tuple, the empty tuple for the empty path.\<close>

definition last_slice :: "dec list \<Rightarrow> dec list" where
  "last_slice p = (if p = [] then [] else [last p])"

text \<open>
  \<open>paths.sort(reverse=True)\<close>. Tuples compare lexicographically, a proper prefix being
  smaller, and \<open>False < True\<close>. The sort only ever sees tuples of booleans; the marker is
  ranked above them to make the order total.
\<close>

fun dec_rank :: "dec \<Rightarrow> nat" where
  "dec_rank (DBool False) = 0"
| "dec_rank (DBool True) = 1"
| "dec_rank DNewBranch = 2"

fun path_less :: "dec list \<Rightarrow> dec list \<Rightarrow> bool" where
  "path_less [] [] = False"
| "path_less [] (y # ys) = True"
| "path_less (x # xs) [] = False"
| "path_less (x # xs) (y # ys) = (if x = y then path_less xs ys else dec_rank x < dec_rank y)"

fun insert_desc :: "dec list \<Rightarrow> dec list list \<Rightarrow> dec list list" where
  "insert_desc p [] = [p]"
| "insert_desc p (q # qs) = (if path_less p q then q # insert_desc p qs else p # q # qs)"

definition sort_reverse :: "dec list list \<Rightarrow> dec list list" where
  "sort_reverse ps = foldr insert_desc ps []"

definition terminal_paths :: "dec list list \<Rightarrow> dec list list" where
  \<comment> \<open>\<open>[path for path in self.paths if path[-1:] != (NewBranch, )]\<close>\<close>
  "terminal_paths ps = filter (\<lambda>path. last_slice path \<noteq> [DNewBranch]) ps"

definition find_branches :: "routine \<Rightarrow> engine \<Rightarrow> (unit result \<times> engine) option" where
  "find_branches func e =
     (let e1 = e\<lparr>paths := [[]], loops := [], path_id := 0\<rparr> in
      case find_loop func e1 of
        None \<Rightarrow> None
      | Some (Raise x, e2) \<Rightarrow> Some (Raise x, e2)
      | Some (Ok _, e2) \<Rightarrow>
          let e3 = e2\<lparr>paths := terminal_paths (paths e2)\<rparr>
          in Some (Ok (), e3\<lparr>paths := sort_reverse (paths e3)\<rparr>))"

section \<open>Compilation: \<open>compile\<close>\<close>

text \<open>\<open>while self.stack: self.pop()\<close>\<close>

function unwind :: "engine \<Rightarrow> unit result \<times> engine" where
  "unwind e =
     (if stack e \<noteq> [] then
        (case pop e of
           (Raise x, e1) \<Rightarrow> (Raise x, e1)
         | (Ok _, e1) \<Rightarrow> unwind e1)
      else (Ok (), e))"
  by pat_completeness auto
termination
  by (relation "measure (\<lambda>e. length (stack e))")
     (auto simp: pop_def set_buff_def reset_def write_str_def Let_def
           split: option.splits if_splits)

text \<open>
  The body of \<open>for path in self.paths\<close>, over the paths as they are when the loop starts:
  the only place that changes \<open>self.paths\<close> while the loop runs is the \<open>IndexError\<close>
  handler of \<open>branch\<close>, which raises and so leaves the loop.
\<close>

fun compile_paths :: "routine \<Rightarrow> dec list list \<Rightarrow> engine \<Rightarrow> unit result \<times> engine" where
  "compile_paths func [] e = (Ok (), e)"
| "compile_paths func (path # rest) e =
     (let e1 = reset e;
          e2 = e1\<lparr>branch_id := 0\<rparr>;
          e3 = e2\<lparr>current_path := path\<rparr>
      in (case exec func e3 of
            (Raise x, e4) \<Rightarrow> (Raise x, e4)
          | (Ok _, e4) \<Rightarrow>
              (case current_block e4 of
                 None \<Rightarrow> (Raise AttributeError, e4)
               | Some cur \<Rightarrow>
                   (case unwind (set_buff cur (getvalue e4) e4) of
                      (Raise x, e5) \<Rightarrow> (Raise x, e5)
                    | (Ok _, e5) \<Rightarrow> compile_paths func rest e5))))"

text \<open>
  \<open>compile(func)\<close>: the \<open>try\<close> body, and the \<open>finally\<close> clause applied to whatever
  leaves it, a returned root block or an exception.
\<close>

definition compile_body :: "routine \<Rightarrow> engine \<Rightarrow> (handle result \<times> engine) option" where
  "compile_body func e =
     (case find_branches func (e\<lparr>state := STATE_BUILDING_BRANCHES\<rparr>) of
        None \<Rightarrow> None
      | Some (Raise x, e1) \<Rightarrow> Some (Raise x, e1)
      | Some (Ok _, e1) \<Rightarrow>
          let e2 = e1\<lparr>state := STATE_COMPILING\<rparr>;
              e3 = e2\<lparr>state_blocks := Map.empty\<rparr>;
              script_block = length (blocks e3);
              e4 = e3\<lparr>current_block := Some script_block\<rparr>;
              e5 = e4\<lparr>blocks := blocks e4 @ [EngineBlock]\<rparr>
          in (case compile_paths func (paths e5) e5 of
                (Raise x, e6) \<Rightarrow> Some (Raise x, e6)
              | (Ok _, e6) \<Rightarrow> Some (Ok script_block, e6)))"

definition compile :: "routine \<Rightarrow> engine \<Rightarrow> (handle result \<times> engine) option" where
  "compile func e =
     (case compile_body func e of
        None \<Rightarrow> None
      | Some (r, e1) \<Rightarrow> Some (r, e1\<lparr>state := STATE_IDLE\<rparr>))"

section \<open>Block equality: \<open>EngineBlock.__eq__\<close>\<close>

text \<open>
  The \<open>while idx < len(self.buff)\<close> loop. \<open>ne_rec\<close> is the comparison
  \<open>self.jumps[idx] != other.jumps[idx]\<close> of the two linked blocks, which calls
  \<open>__ne__\<close> and through it \<open>__eq__\<close> again. The caller has checked that both
  contents have the same length, so \<open>other.buff[idx]\<close> is in range.
\<close>

function eq_loop ::
  "(handle \<Rightarrow> handle \<Rightarrow> bool result) \<Rightarrow> (nat \<rightharpoonup> handle) \<Rightarrow> (nat \<rightharpoonup> handle)
     \<Rightarrow> string \<Rightarrow> string \<Rightarrow> nat \<Rightarrow> bool result" where
  "eq_loop ne_rec self_jumps other_jumps self_buff other_buff idx =
     (if idx < length self_buff then
        (case self_jumps idx of
           Some t1 \<Rightarrow>
             (case other_jumps idx of
                None \<Rightarrow> Ok False
              | Some t2 \<Rightarrow>
                  (case ne_rec t1 t2 of
                     Raise x \<Rightarrow> Raise x
                   | Ok differ \<Rightarrow>
                       if differ then Ok False
                       else eq_loop ne_rec self_jumps other_jumps self_buff other_buff
                              (idx + pointer_size)))
         | None \<Rightarrow>
             if self_buff ! idx \<noteq> other_buff ! idx then Ok False
             else eq_loop ne_rec self_jumps other_jumps self_buff other_buff (idx + 1))
      else Ok True)"
  by pat_completeness auto
termination
  by (relation "measure (\<lambda>(r, sj, oj, sb, ob, idx). length sb - idx)")
     (auto simp: pointer_size_def)

declare eq_loop.simps [simp del]

text \<open>\<open>__ne__\<close>: \<open>not self.__eq__(other)\<close>.\<close>

definition negate :: "bool result \<Rightarrow> bool result" where
  "negate r = (case r of Ok b \<Rightarrow> Ok (\<not> b) | Raise x \<Rightarrow> Raise x)"

text \<open>
  \<open>__eq__\<close> on two blocks of the store \<open>bs\<close>. The first argument is the depth of
  recursion Python still allows; a chain of linked blocks longer than that ends in
  \<open>RecursionError\<close>. \<open>len(None)\<close> is a \<open>TypeError\<close>.
\<close>

fun block_eq :: "nat \<Rightarrow> block list \<Rightarrow> handle \<Rightarrow> handle \<Rightarrow> bool result" where
  "block_eq 0 bs self other = Raise RecursionError"
| "block_eq (Suc limit) bs self other =
     (if self = other then Ok True
      else
        (case buff (bs ! self) of
           None \<Rightarrow> Raise TypeError
         | Some self_buff \<Rightarrow>
             (case buff (bs ! other) of
                None \<Rightarrow> Raise TypeError
              | Some other_buff \<Rightarrow>
                  if length self_buff \<noteq> length other_buff then Ok False
                  else eq_loop (\<lambda>a b. negate (block_eq limit bs a b))
                         (jumps (bs ! self)) (jumps (bs ! other)) self_buff other_buff 0)))"

section \<open>The symbol collections\<close>

text \<open>
  Modelled from the spec: the class \<open>Variable\<close> of \<open>compileengine/variable.py\<close> is
  not among the sources. A handle is taken to be a plain object that holds the attributes
  a collection gives it, \<open>name\<close> (and \<open>engine\<close>, a reference back that is left out),
  and an attribute \<open>value\<close> that can be assigned; \<open>var_value\<close> is \<open>None\<close> while it
  never was.
\<close>

record 'v variable =
  name :: string
  var_value :: "'v option"

text \<open>
  What \<open>getattr(self, name)\<close> can yield on a collection: Python looks the name up on the
  object and its class first, and calls \<open>__getattr__\<close> only when that finds nothing.
  The lookup finds the three attributes \<open>__init__\<close> sets with \<open>object.__setattr__\<close>
  and the methods of the class. (The attributes every object inherits, all named
  \<open>__x__\<close>, are found too; they are not listed, and nothing is proved about names
  that begin with an underscore.)
\<close>

datatype 'v attribute = Handle "'v variable" | CacheDict | EngineObject | InstClass | BoundMethod

record 'v collection =
  cache :: "string \<rightharpoonup> 'v variable"

text \<open>\<open>__init__\<close>: an empty \<open>_cache\<close>.\<close>

definition VariableCollection :: "'v collection" where
  "VariableCollection = \<lparr>cache = Map.empty\<rparr>"

text \<open>\<open>_create\<close>\<close>

definition create :: "string \<Rightarrow> 'v variable" where
  "create n = \<lparr>name = n, var_value = None\<rparr>"

definition own_attribute :: "string \<Rightarrow> 'v attribute option" where
  "own_attribute n =
     (if n = ''_cache'' then Some CacheDict
      else if n = ''engine'' then Some EngineObject
      else if n = ''_inst_class'' then Some InstClass
      else if n \<in> set [''_create'', ''__init__'', ''__getattr__'', ''__setattr__'', ''__dir__'']
      then Some BoundMethod
      else None)"

text \<open>\<open>__getattr__\<close>: the cached handle, created and cached at the first reference.\<close>

definition getattr_hook :: "string \<Rightarrow> 'v collection \<Rightarrow> 'v variable \<times> 'v collection" where
  "getattr_hook n c =
     (case cache c n of
        Some var \<Rightarrow> (var, c)
      | None \<Rightarrow> let var = create n in (var, c\<lparr>cache := (cache c)(n \<mapsto> var)\<rparr>))"

text \<open>Reading the attribute \<open>name\<close> of a collection, and the builtin \<open>getattr\<close>.\<close>

definition getattr :: "string \<Rightarrow> 'v collection \<Rightarrow> 'v attribute \<times> 'v collection" where
  "getattr n c =
     (case own_attribute n of
        Some a \<Rightarrow> (a, c)
      | None \<Rightarrow> let (var, c') = getattr_hook n c in (Handle var, c'))"

text \<open>
  \<open>VariableCollection.__setattr__\<close>: \<open>var = getattr(self, name); var.value = value\<close>.
  The handle is the object held in \<open>_cache\<close> under \<open>name\<close>, so assigning its
  \<open>value\<close> changes that entry. A dict and a bound method take no new attribute
  (\<open>AttributeError\<close>); the engine and the handle class do, which leaves the collection
  as it is.
\<close>

definition setattr_variables :: "string \<Rightarrow> 'v \<Rightarrow> 'v collection \<Rightarrow> unit result \<times> 'v collection" where
  "setattr_variables n v c =
     (case getattr n c of
        (Handle var, c') \<Rightarrow> (Ok (), c'\<lparr>cache := (cache c')(n \<mapsto> var\<lparr>var_value := Some v\<rparr>)\<rparr>)
      | (CacheDict, c') \<Rightarrow> (Raise AttributeError, c')
      | (BoundMethod, c') \<Rightarrow> (Raise AttributeError, c')
      | (EngineObject, c') \<Rightarrow> (Ok (), c')
      | (InstClass, c') \<Rightarrow> (Ok (), c'))"

text \<open>\<open>FunctionCollection.__setattr__\<close>: \<open>raise TypeError('Cannot set a function')\<close>.\<close>

definition setattr_functions :: "string \<Rightarrow> 'v \<Rightarrow> 'v collection \<Rightarrow> unit result \<times> 'v collection" where
  "setattr_functions n v c = (Raise TypeError, c)"

text \<open>A name that is not \<open>engine\<close> and does not begin with an underscore.\<close>

definition symbol_name :: "string \<Rightarrow> bool" where
  "symbol_name n \<longleftrightarrow> n \<noteq> ''engine'' \<and> (case n of [] \<Rightarrow> True | ch # _ \<Rightarrow> ch \<noteq> CHR ''_'')"

section \<open>Measures and frames used in the proofs\<close>

text \<open>
  \<open>depth r\<close> bounds the number of \<open>branch\<close> calls of one run of \<open>r\<close>.
\<close>

fun depth :: "routine \<Rightarrow> nat" where
  "depth Return = 0"
| "depth (Write s k) = depth k"
| "depth (WriteValue v sz k) = depth k"
| "depth (Unknown v sz k) = depth k"
| "depth (Branch c kt kf) = Suc (max (depth kt) (depth kf))"
| "depth (Loop c k) = 0"
| "depth (Call f body k) = depth body + depth k"
| "depth (IfCompiling kt kf) = max (depth kt) (depth kf)"
| "depth Throw = 0"


text \<open>
  What one run of a routine, or one engine operation, can do to the discovery state:
  it keeps \<open>current_path\<close>, \<open>path_id\<close> and \<open>state\<close>, advances \<open>branch_id\<close> by at
  most \<open>d\<close>, and changes \<open>paths\<close> only when it ends in \<open>NewBranch\<close> (\<open>nb\<close>), by
  appending the two continuations of the current path.
\<close>

definition run_frame :: "nat \<Rightarrow> engine \<Rightarrow> bool \<Rightarrow> engine \<Rightarrow> bool" where
  "run_frame d e nb e' \<longleftrightarrow>
     current_path e' = current_path e \<and> path_id e' = path_id e \<and> state e' = state e
     \<and> branch_id e \<le> branch_id e' \<and> branch_id e' \<le> branch_id e + d
     \<and> (if nb
         then paths e' = paths e @ [current_path e @ [DBool True], current_path e @ [DBool False]]
              \<and> length (current_path e) < branch_id e + d
         else paths e' = paths e)"

text \<open>
  The weight of the paths still to be run; it decreases with every turn of the discovery
  loop of a routine whose runs make at most \<open>d\<close> branch calls.
\<close>

definition path_weight :: "nat \<Rightarrow> dec list \<Rightarrow> nat" where
  "path_weight d p = 2 * 2 ^ (Suc d - length p) - 1"

definition pending_weight :: "nat \<Rightarrow> engine \<Rightarrow> nat" where
  "pending_weight d e = sum_list (map (path_weight d) (drop (path_id e) (paths e)))"

text \<open>Every \<open>state_blocks\<close> entry of \<open>e\<close> is still there, unchanged, in \<open>e'\<close>.\<close>

definition entries_kept :: "engine \<Rightarrow> engine \<Rightarrow> bool" where
  "entries_kept e e' \<longleftrightarrow> (\<forall>k h. state_blocks e k = Some h \<longrightarrow> state_blocks e' k = Some h)"

text \<open>
  The course of one discovery run, as a function of the decisions still unread in
  \<open>current_path\<close>: it returns and leaves some unread (\<open>Finished\<close>), asks for one more
  than there are (\<open>Asked\<close>), reaches a call of \<open>loop\<close> (\<open>Looped\<close>), or raises
  an exception of its own (\<open>Threw\<close>).
\<close>

datatype walk = Finished "dec list" | Asked | Looped | Threw

fun walk_routine :: "routine \<Rightarrow> dec list \<Rightarrow> walk" where
  "walk_routine Return ds = Finished ds"
| "walk_routine (Write s k) ds = walk_routine k ds"
| "walk_routine (WriteValue v sz k) ds = walk_routine k ds"
| "walk_routine (Unknown v sz k) ds = walk_routine k ds"
| "walk_routine (Branch c kt kf) [] = Asked"
| "walk_routine (Branch c kt kf) (d # ds) = (if truthy d then walk_routine kt ds else walk_routine kf ds)"
| "walk_routine (Loop c k) ds = Looped"
| "walk_routine (Call f body k) ds =
     (case walk_routine body ds of
        Finished rest \<Rightarrow> walk_routine k rest
      | Asked \<Rightarrow> Asked
      | Looped \<Rightarrow> Looped
      | Threw \<Rightarrow> Threw)"
| "walk_routine (IfCompiling kt kf) ds = walk_routine kf ds"
| "walk_routine Throw ds = Threw"

text \<open>
  What a run started outside the compile phase does, in terms of \<open>walk_routine\<close>; it
  leaves all blocks alone.
\<close>

definition discovery_run :: "routine \<Rightarrow> engine \<Rightarrow> unit result \<Rightarrow> engine \<Rightarrow> bool" where
  "discovery_run r e out e' \<longleftrightarrow>
     blocks e' = blocks e \<and> current_block e' = current_block e
     \<and> (\<forall>rest. walk_routine r (drop (branch_id e) (current_path e)) = Finished rest \<longrightarrow>
            out = Ok () \<and> branch_id e' \<le> length (current_path e)
            \<and> drop (branch_id e') (current_path e) = rest)
     \<and> (walk_routine r (drop (branch_id e) (current_path e)) = Asked \<longrightarrow> out = Raise NewBranch)
     \<and> (walk_routine r (drop (branch_id e) (current_path e)) = Looped \<longrightarrow>
            out = Raise NotImplementedError)
     \<and> (walk_routine r (drop (branch_id e) (current_path e)) = Threw \<longrightarrow> out = Raise UserError)"

text \<open>
  \<open>branch_calls r = Some k\<close>: every execution of \<open>r\<close> makes exactly \<open>k\<close> calls of
  \<open>branch\<close> and returns, whatever decisions it is given and in whichever phase.
\<close>

fun branch_calls :: "routine \<Rightarrow> nat option" where
  "branch_calls Return = Some 0"
| "branch_calls (Write s k) = branch_calls k"
| "branch_calls (WriteValue v sz k) = branch_calls k"
| "branch_calls (Unknown v sz k) = branch_calls k"
| "branch_calls (Branch c kt kf) =
     (case (branch_calls kt, branch_calls kf) of
        (Some a, Some b) \<Rightarrow> if a = b then Some (Suc a) else None
      | _ \<Rightarrow> None)"
| "branch_calls (Loop c k) = None"
| "branch_calls (Call f body k) =
     (case (branch_calls body, branch_calls k) of
        (Some a, Some b) \<Rightarrow> Some (a + b)
      | _ \<Rightarrow> None)"
| "branch_calls (IfCompiling kt kf) =
     (case (branch_calls kt, branch_calls kf) of
        (Some a, Some b) \<Rightarrow> if a = b then Some a else None
      | _ \<Rightarrow> None)"
| "branch_calls Throw = None"

text \<open>
  The invariant of the discovery loop for a routine of \<open>k\<close> branch calls: a pending path
  \<open>p\<close> will yield \<open>2 ^ (k - length p)\<close> terminal paths.
\<close>

definition counted :: "nat \<Rightarrow> nat \<Rightarrow> engine \<Rightarrow> bool" where
  "counted k n e \<longleftrightarrow>
     state e \<noteq> STATE_COMPILING
     \<and> (\<forall>p \<in> set (drop (path_id e) (paths e)). length p \<le> k \<and> last_slice p \<noteq> [DNewBranch])
     \<and> (\<forall>p \<in> set (terminal_paths (take (path_id e) (paths e))). length p = k)
     \<and> length (terminal_paths (take (path_id e) (paths e)))
         + sum_list (map (\<lambda>p. 2 ^ (k - length p)) (drop (path_id e) (paths e))) = n"

text \<open>
  \<open>calls_loop r\<close>: some run of \<open>r\<close> in the discovery phase reaches a call of \<open>loop\<close>.
\<close>

fun calls_loop :: "routine \<Rightarrow> bool" where
  "calls_loop Return = False"
| "calls_loop (Write s k) = calls_loop k"
| "calls_loop (WriteValue v sz k) = calls_loop k"
| "calls_loop (Unknown v sz k) = calls_loop k"
| "calls_loop (Branch c kt kf) = (calls_loop kt \<or> calls_loop kf)"
| "calls_loop (Loop c k) = True"
| "calls_loop (Call f body k) = (calls_loop body \<or> calls_loop k)"
| "calls_loop (IfCompiling kt kf) = calls_loop kf"
| "calls_loop Throw = False"

text \<open>
  \<open>throws r\<close>: some run of \<open>r\<close> in the discovery phase may raise an exception of
  the routine's own.
\<close>

fun throws :: "routine \<Rightarrow> bool" where
  "throws Return = False"
| "throws (Write s k) = throws k"
| "throws (WriteValue v sz k) = throws k"
| "throws (Unknown v sz k) = throws k"
| "throws (Branch c kt kf) = (throws kt \<or> throws kf)"
| "throws (Loop c k) = False"
| "throws (Call f body k) = (throws body \<or> throws k)"
| "throws (IfCompiling kt kf) = throws kf"
| "throws Throw = True"

text \<open>
  The invariant of the discovery loop for such a routine: one of the pending paths is the
  beginning of a sequence of decisions that leads to the call of \<open>loop\<close>, and no block
  has been touched.
\<close>

definition loop_pending :: "routine \<Rightarrow> block list \<Rightarrow> handle option \<Rightarrow> engine \<Rightarrow> bool" where
  "loop_pending r bs cb e \<longleftrightarrow>
     state e \<noteq> STATE_COMPILING \<and> blocks e = bs \<and> current_block e = cb
     \<and> (\<exists>j ds. path_id e \<le> j \<and> j < length (paths e)
           \<and> walk_routine r (paths e ! j @ map DBool ds) = Looped)"

section \<open>Routines used as examples\<close>

text \<open>
  One \<open>branch\<close> call, no nesting: \<open>if engine.branch(c): engine.write('\x01')\<close>
  \<open>else: engine.write('\x02')\<close>.
\<close>

definition branch_once :: "condition \<Rightarrow> routine" where
  "branch_once c = Branch c (Write [CHR 0x01] Return) (Write [CHR 0x02] Return)"

text \<open>
  A routine that asks for a decision only in the compile phase:
  \<open>if engine.state == engine.STATE_COMPILING: engine.branch(c)\<close>.
\<close>

definition branch_when_compiling :: "condition \<Rightarrow> routine" where
  "branch_when_compiling c = IfCompiling (Branch c Return Return) Return"

text \<open>
  A subroutine of identity 7 that writes one byte, called from three call sites: twice by
  the routine itself and once from inside a second subroutine, of identity 8.
\<close>

definition sub_f :: routine where
  "sub_f = Write ''x'' Return"

definition call_sites :: routine where
  "call_sites = Call 7 sub_f (Call 8 (Call 7 sub_f Return) (Call 7 sub_f Return))"

text \<open>The engine as \<open>compile\<close> has it when it starts to run a path: a fresh root block.\<close>

definition at_root :: engine where
  "at_root = Engine\<lparr>state := STATE_COMPILING, current_block := Some 0, blocks := [EngineBlock]\<rparr>"

text \<open>
  A routine that calls three subroutines: subroutine 1 writes four zero bytes with
  \<open>unknown(0, 4)\<close>; subroutine 2 calls subroutine 3, which writes one byte.
\<close>

definition zeros_and_call :: routine where
  "zeros_and_call = Call 1 (Unknown 0 4 Return) (Call 2 (Call 3 (Write ''x'' Return) Return) Return)"

text \<open>
  A routine that writes a byte, branches, and calls \<open>loop\<close> on the true side:
  \<open>engine.write('a'); if engine.branch('c'): engine.loop('d')\<close>.
\<close>

definition write_branch_loop :: routine where
  "write_branch_loop = Write ''a'' (Branch ''c'' (Loop ''d'' Return) Return)"

section \<open>Properties\<close>

subsection \<open>One run of a routine\<close>

lemma run_frame_refl: "run_frame 0 e False e"
  by (simp add: run_frame_def)

lemma run_frame_mono: "run_frame d e nb e' \<Longrightarrow> d \<le> d' \<Longrightarrow> run_frame d' e nb e'"
  by (simp add: run_frame_def split: if_splits)

lemma run_frame_seq: "run_frame d1 e False e1 \<Longrightarrow> run_frame d2 e1 nb e' \<Longrightarrow> run_frame (d1 + d2) e nb e'"
  by (simp add: run_frame_def split: if_splits)

lemma run_frame_seq0: "run_frame 0 e False e1 \<Longrightarrow> run_frame d e1 nb e' \<Longrightarrow> run_frame d e nb e'"
  using run_frame_seq [of 0 e e1 d nb e'] by simp

lemma write_str_frame: "run_frame 0 e False (write_str s e)"
  by (simp add: run_frame_def write_str_def)

lemma write_value_frame: "run_frame 0 e False (write_value v sz e)"
  by (simp add: run_frame_def write_value_def write_str_def)

lemma unknown_frame: "run_frame 0 e False (unknown v sz e)"
  by (simp add: unknown_def write_value_frame run_frame_refl)

lemma set_jump_frame: "run_frame 0 e False (set_jump b ofs t e)"
  by (simp add: run_frame_def set_jump_def split: option.splits)

lemma push_frame: "push k e = (out, e') \<Longrightarrow> run_frame 0 e False e' \<and> out \<noteq> Raise NewBranch"
  by (auto simp: run_frame_def push_def set_buff_def reset_def getvalue_def Let_def split: option.splits)

lemma pop_frame: "pop e = (out, e') \<Longrightarrow> run_frame 0 e False e' \<and> out \<noteq> Raise NewBranch"
  by (auto simp: run_frame_def pop_def set_buff_def reset_def getvalue_def write_str_def Let_def
      split: option.splits if_splits)

lemma branch_frame:
  assumes "branch c e = (out, e')"
  shows "run_frame 1 e (out = Raise NewBranch) e'"
proof (cases "branch_id e < length (current_path e)")
  case False
  with assms show ?thesis by (auto simp: branch_def run_frame_def)
next
  case True
  show ?thesis
  proof (cases "state e = STATE_COMPILING")
    case False
    with True assms show ?thesis by (auto simp: branch_def run_frame_def Let_def)
  next
    case c: True
    define e3 where "e3 = write_value 0 (int pointer_size) (write_value 0 (int pointer_size) (e\<lparr>branch_id := branch_id e + 1\<rparr>))"
    have f3: "run_frame 1 e False e3"
      by (simp add: e3_def run_frame_def write_value_def write_str_def)
    obtain o4 e4 where p: "push (KDecision (current_path e ! branch_id e)) e3 = (o4, e4)"
      by (cases "push (KDecision (current_path e ! branch_id e)) e3")
    from push_frame[OF p] f3 have f4: "run_frame 1 e False e4" and nn: "o4 \<noteq> Raise NewBranch"
      using run_frame_seq [of 1 e e3 0 False e4] by simp_all
    show ?thesis
    proof (cases o4)
      case (Raise x)
      with assms True c p have "out = Raise x" "e' = e4"
        by (simp_all add: branch_def write_branch_def Let_def e3_def)
      with f4 nn Raise show ?thesis by simp
    next
      case (Ok u)
      define e5 where "e5 = (if current_path e ! branch_id e = DBool True
          then set_jump (current_block e) (tell (e\<lparr>branch_id := Suc (branch_id e)\<rparr>)) (current_block e4) e4
          else e4)"
      define e6 where "e6 = (if current_path e ! branch_id e = DBool False
          then set_jump (current_block e)
                 (tell (write_value 0 (int pointer_size) (e\<lparr>branch_id := Suc (branch_id e)\<rparr>)))
                 (current_block e5) e5
          else e5)"
      from assms True c p Ok have res: "out = Ok (current_path e ! branch_id e)" "e' = e6"
        by (auto simp: branch_def write_branch_def Let_def e3_def e5_def e6_def)
      have "run_frame 0 e4 False e5"
        by (simp add: e5_def set_jump_frame run_frame_refl)
      moreover have "run_frame 0 e5 False e6"
        by (simp add: e6_def set_jump_frame run_frame_refl)
      ultimately have "run_frame 1 e False e6"
        using f4 run_frame_seq [of 1 e e4 0 False e5] run_frame_seq [of 1 e e5 0 False e6] by simp
      with res show ?thesis by simp
    qed
  qed
qed

lemma call_enter_frame:
  assumes "call_enter f e = (out, e')"
  shows "run_frame 0 e False e' \<and> out \<noteq> Raise NewBranch"
proof (cases "state e = STATE_COMPILING")
  case False
  with assms show ?thesis by (auto simp: call_enter_def run_frame_refl)
next
  case True
  define e1 where "e1 = write_value 0 (int pointer_size) e"
  have f1: "run_frame 0 e False e1" by (simp add: e1_def write_value_frame)
  obtain o2 e2 where p: "push (KFunc f) e1 = (o2, e2)" by (cases "push (KFunc f) e1")
  from push_frame[OF p] f1 have f2: "run_frame 0 e False e2" and nn: "o2 \<noteq> Raise NewBranch"
    using run_frame_seq0 by blast+
  show ?thesis
  proof (cases o2)
    case (Raise x)
    with assms True p have "out = Raise x" "e' = e2"
      by (simp_all add: call_enter_def write_jump_def Let_def e1_def)
    with f2 nn Raise show ?thesis by simp
  next
    case (Ok u)
    with assms True p have "out = Ok ()" 
      "e' = set_jump (current_block e) (tell e1 - pointer_size) (current_block e2) e2"
      by (simp_all add: call_enter_def write_jump_def Let_def e1_def)
    with f2 show ?thesis using run_frame_seq0 [OF f2 set_jump_frame] by simp
  qed
qed

lemma call_exit_frame: "call_exit e = (out, e') \<Longrightarrow> run_frame 0 e False e' \<and> out \<noteq> Raise NewBranch"
  by (auto simp: call_exit_def run_frame_refl split: if_splits dest: pop_frame)

lemma exec_frame: "exec r e = (out, e') \<Longrightarrow> run_frame (depth r) e (out = Raise NewBranch) e'"
proof (induction r e arbitrary: out e' rule: exec.induct)
  case (1 e)
  then show ?case by (auto simp: run_frame_refl)
next
  case (2 s k e)
  from 2(2) have "exec k (write_str s e) = (out, e')" by simp
  from run_frame_seq0 [OF write_str_frame 2(1)[OF this]] show ?case by simp
next
  case (3 v sz k e)
  from 3(2) have "exec k (write_value v sz e) = (out, e')" by simp
  from run_frame_seq0 [OF write_value_frame 3(1)[OF this]] show ?case by simp
next
  case (4 v sz k e)
  from 4(2) have "exec k (unknown v sz e) = (out, e')" by simp
  from run_frame_seq0 [OF unknown_frame 4(1)[OF this]] show ?case by simp
next
  case (5 c kt kf e)
  obtain o1 e1 where b: "branch c e = (o1, e1)" by (cases "branch c e")
  note bf = branch_frame[OF b]
  show ?case
  proof (cases o1)
    case (Raise x)
    with 5(3) b have "out = Raise x" "e' = e1" by simp_all
    with bf Raise show ?thesis using run_frame_mono [of 1 e _ e1 "depth (Branch c kt kf)"] by simp
  next
    case (Ok val)
    with bf have bf': "run_frame 1 e False e1" by simp
    show ?thesis
    proof (cases "truthy val")
      case True
      with 5(3) b Ok have "exec kt e1 = (out, e')" by simp
      from 5(1)[OF b[symmetric] _ True this] Ok 
      have "run_frame (depth kt) e1 (out = Raise NewBranch) e'" by simp
      from run_frame_mono [OF run_frame_seq [OF bf' this]] show ?thesis by simp
    next
      case False
      with 5(3) b Ok have "exec kf e1 = (out, e')" by simp
      from 5(2)[OF b[symmetric] _ False this] Ok
      have "run_frame (depth kf) e1 (out = Raise NewBranch) e'" by simp
      from run_frame_mono [OF run_frame_seq [OF bf' this]] show ?thesis by simp
    qed
  qed
next
  case (6 c k e)
  then show ?case by (auto simp: loop_def run_frame_refl)
next
  case (7 f body k e)
  obtain o1 e1 where a: "call_enter f e = (o1, e1)" by (cases "call_enter f e")
  from call_enter_frame[OF a] have af: "run_frame 0 e False e1" and an: "o1 \<noteq> Raise NewBranch" by simp_all
  show ?case
  proof (cases o1)
    case (Raise x)
    with 7(3) a have "out = Raise x" "e' = e1" by simp_all
    with af an Raise show ?thesis using run_frame_mono [of 0 e False e1] by simp
  next
    case (Ok u)
    obtain o2 e2 where b: "exec body e1 = (o2, e2)" by (cases "exec body e1")
    from 7(1)[OF a[symmetric] _ b] Ok have bf: "run_frame (depth body) e1 (o2 = Raise NewBranch) e2" by simp
    show ?thesis
    proof (cases o2)
      case (Raise x)
      with 7(3) a b Ok have "out = Raise x" "e' = e2" by simp_all
      with run_frame_mono [OF run_frame_seq0 [OF af bf]] Raise show ?thesis by simp
    next
      case Ok2: (Ok u2)
      with bf have bf': "run_frame (depth body) e1 False e2" by simp
      obtain o3 e3 where c: "call_exit e2 = (o3, e3)" by (cases "call_exit e2")
      from call_exit_frame[OF c] have cf: "run_frame 0 e2 False e3" and cn: "o3 \<noteq> Raise NewBranch" by simp_all
      from run_frame_seq [OF run_frame_seq0 [OF af bf'] cf] 
      have f3: "run_frame (depth body) e False e3" by simp
      show ?thesis
      proof (cases o3)
        case (Raise x)
        with 7(3) a b c Ok Ok2 have "out = Raise x" "e' = e3" by simp_all
        with run_frame_mono [OF f3] cn Raise show ?thesis by simp
      next
        case Ok3: (Ok u3)
        with 7(3) a b c Ok Ok2 have d: "exec k e3 = (out, e')" by simp
        from 7(2)[OF a[symmetric] _ b[symmetric] _ c[symmetric] _ d] Ok Ok2 Ok3
        have "run_frame (depth k) e3 (out = Raise NewBranch) e'" by simp
        from run_frame_seq [OF f3 this] show ?thesis by simp
      qed
    qed
  qed
next
  case (8 kt kf e)
  show ?case
  proof (cases "state e = STATE_COMPILING")
    case True
    with 8 have "run_frame (depth kt) e (out = Raise NewBranch) e'" by simp
    from run_frame_mono [OF this] show ?thesis by simp
  next
    case False
    with 8 have "run_frame (depth kf) e (out = Raise NewBranch) e'" by simp
    from run_frame_mono [OF this] show ?thesis by simp
  qed
next
  case (9 e)
  then show ?case by (auto simp: run_frame_refl)
qed

subsection \<open>Case rules and a preservation rule for runs\<close>

lemma exec_preserves:
  assumes rf: "\<And>e. R e e"
    and tr: "\<And>a b c. R a b \<Longrightarrow> R b c \<Longrightarrow> R a c"
    and ws: "\<And>s e. R e (write_str s e)"
    and wv: "\<And>v sz e. R e (write_value v sz e)"
    and br: "\<And>c e out e'. branch c e = (out, e') \<Longrightarrow> R e e'"
    and ce: "\<And>f e out e'. call_enter f e = (out, e') \<Longrightarrow> R e e'"
    and cx: "\<And>e out e'. call_exit e = (out, e') \<Longrightarrow> R e e'"
  shows "exec r e = (out, e') \<Longrightarrow> R e e'"
proof (induction r e arbitrary: out e' rule: exec.induct)
  case (1 e)
  then show ?case using rf by simp
next
  case (2 s k e)
  then have "R (write_str s e) e'" by simp
  with ws show ?case by (rule tr)
next
  case (3 v sz k e)
  then have "R (write_value v sz e) e'" by simp
  with wv show ?case by (rule tr)
next
  case (4 v sz k e)
  then have "R (unknown v sz e) e'" by simp
  moreover have "R e (unknown v sz e)" by (simp add: unknown_def wv rf)
  ultimately show ?case using tr by blast
next
  case (5 c kt kf e)
  obtain o1 e1 where b: "branch c e = (o1, e1)" by (cases "branch c e")
  note r1 = br [OF b]
  show ?case
  proof (cases o1)
    case (Raise x)
    with 5(3) b have "e' = e1" by simp
    with r1 show ?thesis by simp
  next
    case (Ok val)
    show ?thesis
    proof (cases "truthy val")
      case True
      with 5(3) b Ok have "exec kt e1 = (out, e')" by simp
      from 5(1) [OF b [symmetric] _ True this] Ok have "R e1 e'" by simp
      with r1 show ?thesis by (rule tr)
    next
      case False
      with 5(3) b Ok have "exec kf e1 = (out, e')" by simp
      from 5(2) [OF b [symmetric] _ False this] Ok have "R e1 e'" by simp
      with r1 show ?thesis by (rule tr)
    qed
  qed
next
  case (6 c k e)
  then show ?case using rf by (simp add: loop_def)
next
  case (7 f body k e)
  obtain o1 e1 where a: "call_enter f e = (o1, e1)" by (cases "call_enter f e")
  note r1 = ce [OF a]
  show ?case
  proof (cases o1)
    case (Raise x)
    with 7(3) a have "e' = e1" by simp
    with r1 show ?thesis by simp
  next
    case (Ok u)
    obtain o2 e2 where b: "exec body e1 = (o2, e2)" by (cases "exec body e1")
    from 7(1) [OF a [symmetric] _ b] Ok have "R e1 e2" by simp
    with r1 have r2: "R e e2" by (rule tr)
    show ?thesis
    proof (cases o2)
      case (Raise x)
      with 7(3) a b Ok have "e' = e2" by simp
      with r2 show ?thesis by simp
    next
      case Ok2: (Ok u2)
      obtain o3 e3 where c: "call_exit e2 = (o3, e3)" by (cases "call_exit e2")
      from r2 cx [OF c] have r3: "R e e3" by (rule tr)
      show ?thesis
      proof (cases o3)
        case (Raise x)
        with 7(3) a b c Ok Ok2 have "e' = e3" by simp
        with r3 show ?thesis by simp
      next
        case Ok3: (Ok u3)
        with 7(3) a b c Ok Ok2 have d: "exec k e3 = (out, e')" by simp
        from 7(2) [OF a [symmetric] _ b [symmetric] _ c [symmetric] _ d] Ok Ok2 Ok3
        have "R e3 e'" by simp
        with r3 show ?thesis by (rule tr)
      qed
    qed
  qed
next
  case (8 kt kf e)
  then show ?case by (simp split: if_splits)
next
  case (9 e)
  then show ?case using rf by simp
qed

lemma branch_cases:
  assumes "branch c e = (out, e')"
  obtains
    (beyond) "\<not> branch_id e < length (current_path e)" "out = Raise NewBranch"
      "e' = e\<lparr>paths := paths e @ [current_path e @ [DBool True]] @ [current_path e @ [DBool False]]\<rparr>"
  | (discovering) "branch_id e < length (current_path e)" "state e \<noteq> STATE_COMPILING"
      "out = Ok (current_path e ! branch_id e)" "e' = e\<lparr>branch_id := branch_id e + 1\<rparr>"
  | (push_raised) x where "branch_id e < length (current_path e)" "state e = STATE_COMPILING"
      "push (KDecision (current_path e ! branch_id e))
         (write_value 0 (int pointer_size) (write_value 0 (int pointer_size)
           (e\<lparr>branch_id := branch_id e + 1\<rparr>))) = (Raise x, e')"
      "out = Raise x"
  | (compiling) e4 e5 where "branch_id e < length (current_path e)" "state e = STATE_COMPILING"
      "push (KDecision (current_path e ! branch_id e))
         (write_value 0 (int pointer_size) (write_value 0 (int pointer_size)
           (e\<lparr>branch_id := branch_id e + 1\<rparr>))) = (Ok (), e4)"
      "e5 = (if current_path e ! branch_id e = DBool True
             then set_jump (current_block e) (tell e) (current_block e4) e4 else e4)"
      "e' = (if current_path e ! branch_id e = DBool False
             then set_jump (current_block e) (tell e + pointer_size) (current_block e5) e5 else e5)"
      "out = Ok (current_path e ! branch_id e)"
proof (cases "branch_id e < length (current_path e)")
  case False
  with assms have "out = Raise NewBranch"
    "e' = e\<lparr>paths := paths e @ [current_path e @ [DBool True]] @ [current_path e @ [DBool False]]\<rparr>"
    by (auto simp: branch_def)
  with beyond False show ?thesis by blast
next
  case True
  show ?thesis
  proof (cases "state e = STATE_COMPILING")
    case False
    with True assms have "out = Ok (current_path e ! branch_id e)" "e' = e\<lparr>branch_id := branch_id e + 1\<rparr>"
      by (auto simp: branch_def Let_def)
    with discovering True False show ?thesis by blast
  next
    case c: True
    define e3 where "e3 = write_value 0 (int pointer_size) (write_value 0 (int pointer_size)
           (e\<lparr>branch_id := branch_id e + 1\<rparr>))"
    obtain o4 e4 where p: "push (KDecision (current_path e ! branch_id e)) e3 = (o4, e4)"
      by (cases "push (KDecision (current_path e ! branch_id e)) e3")
    show ?thesis
    proof (cases o4)
      case (Raise x)
      with assms True c p have "out = Raise x" "e' = e4"
        by (simp_all add: branch_def write_branch_def Let_def e3_def)
      with push_raised [of x] True c p Raise show ?thesis by (simp add: e3_def)
    next
      case (Ok u)
      define e5 where "e5 = (if current_path e ! branch_id e = DBool True
             then set_jump (current_block e) (tell e) (current_block e4) e4 else e4)"
      have t: "tell (e\<lparr>branch_id := Suc (branch_id e)\<rparr>) = tell e"
        "tell (write_value 0 (int pointer_size) (e\<lparr>branch_id := Suc (branch_id e)\<rparr>)) = tell e + pointer_size"
        by (simp_all add: tell_def write_value_def write_str_def value_bytes_def)
      from assms True c p Ok have "out = Ok (current_path e ! branch_id e)"
        "e' = (if current_path e ! branch_id e = DBool False
             then set_jump (current_block e) (tell e + pointer_size) (current_block e5) e5 else e5)"
        by (auto simp: branch_def write_branch_def Let_def e3_def e5_def t)
      with compiling [of e4 e5] True c p Ok show ?thesis by (simp add: e3_def e5_def)
    qed
  qed
qed

lemma call_enter_cases:
  assumes "call_enter f e = (out, e')"
  obtains
    (discovering) "state e \<noteq> STATE_COMPILING" "out = Ok ()" "e' = e"
  | (push_raised) x where "state e = STATE_COMPILING"
      "push (KFunc f) (write_value 0 (int pointer_size) e) = (Raise x, e')" "out = Raise x"
  | (compiling) e2 where "state e = STATE_COMPILING"
      "push (KFunc f) (write_value 0 (int pointer_size) e) = (Ok (), e2)"
      "e' = set_jump (current_block e) (tell e) (current_block e2) e2" "out = Ok ()"
proof (cases "state e = STATE_COMPILING")
  case False
  with assms have "out = Ok ()" "e' = e" by (auto simp: call_enter_def)
  with discovering False show ?thesis by blast
next
  case True
  obtain o2 e2 where p: "push (KFunc f) (write_value 0 (int pointer_size) e) = (o2, e2)"
    by (cases "push (KFunc f) (write_value 0 (int pointer_size) e)")
  have t: "tell (write_value 0 (int pointer_size) e) - pointer_size = tell e"
    by (simp add: tell_def write_value_def write_str_def value_bytes_def)
  show ?thesis
  proof (cases o2)
    case (Raise x)
    with assms True p have "out = Raise x" "e' = e2"
      by (simp_all add: call_enter_def write_jump_def Let_def)
    with push_raised [of x] True p Raise show ?thesis by simp
  next
    case (Ok u)
    with assms True p have "out = Ok ()" "e' = set_jump (current_block e) (tell e) (current_block e2) e2"
      by (simp_all add: call_enter_def write_jump_def Let_def t)
    with compiling [of e2] True p Ok show ?thesis by simp
  qed
qed

subsection \<open>The discovery loop returns\<close>

lemma path_weight_pos: "0 < path_weight d p"
proof -
  have "(1::nat) \<le> 2 ^ (Suc d - length p)" by simp
  then show ?thesis unfolding path_weight_def by linarith
qed

lemma path_weight_split:
  assumes "length p < d"
  shows "path_weight d (p @ [x]) + path_weight d (p @ [y]) < path_weight d p"
proof -
  define w :: nat where "w = 2 ^ (d - length p)"
  from assms have "Suc d - length p = Suc (d - length p)" by simp
  then have "path_weight d p = 4 * w - 1"
    by (simp add: path_weight_def w_def)
  moreover have "path_weight d (p @ [x]) = 2 * w - 1" "path_weight d (p @ [y]) = 2 * w - 1"
    by (simp_all add: path_weight_def w_def)
  moreover have "1 \<le> w" by (simp add: w_def)
  ultimately show ?thesis by linarith
qed

lemma find_loop_step:
  assumes "path_id e < length (paths e)"
    and "exec r (e\<lparr>current_path := paths e ! path_id e, branch_id := 0\<rparr>) = (out, e3)"
  shows "find_loop r e =
     (case out of
        Raise x \<Rightarrow> if x = NewBranch
                   then find_loop r (e3\<lparr>paths := (paths e3)[path_id e3 := current_path e3 @ [DNewBranch]],
                                         path_id := path_id e3 + 1\<rparr>)
                   else Some (Raise x, e3)
      | Ok _ \<Rightarrow> find_loop r (e3\<lparr>path_id := path_id e3 + 1\<rparr>))"
  using assms by (subst find_loop.simps) (simp add: Let_def)

lemma find_loop_stop: "\<not> path_id e < length (paths e) \<Longrightarrow> find_loop r e = Some (Ok (), e)"
  by (subst find_loop.simps) simp

lemma find_loop_total: "\<exists>out e'. find_loop r e = Some (out, e') \<and> out \<noteq> Raise NewBranch"
proof (induction "pending_weight (depth r) e" arbitrary: e rule: less_induct)
  case less
  show ?case
  proof (cases "path_id e < length (paths e)")
    case False
    then show ?thesis by (simp add: find_loop_stop)
  next
    case True
    define p where "p = paths e ! path_id e"
    define e2 where "e2 = e\<lparr>current_path := p, branch_id := 0\<rparr>"
    obtain out e3 where ex: "exec r e2 = (out, e3)" by (cases "exec r e2")
    note step = find_loop_step [OF True ex [unfolded e2_def p_def]]
    from exec_frame [OF ex] have fr: "run_frame (depth r) e2 (out = Raise NewBranch) e3" .
    have dr: "drop (path_id e) (paths e) = p # drop (Suc (path_id e)) (paths e)"
      using True by (simp add: p_def Cons_nth_drop_Suc)
    show ?thesis
    proof (cases out)
      case (Ok u)
      define e4 where "e4 = e3\<lparr>path_id := path_id e3 + 1\<rparr>"
      from fr Ok have "paths e3 = paths e" "path_id e3 = path_id e"
        by (simp_all add: run_frame_def e2_def)
      then have "pending_weight (depth r) e4 < pending_weight (depth r) e"
        using dr path_weight_pos [of "depth r" p] by (simp add: pending_weight_def e4_def)
      from less [OF this] step Ok show ?thesis by (simp add: e4_def)
    next
      case (Raise x)
      show ?thesis
      proof (cases "x = NewBranch")
        case False
        with step Raise show ?thesis by simp
      next
        case nb: True
        define e4 where "e4 = e3\<lparr>paths := (paths e3)[path_id e3 := current_path e3 @ [DNewBranch]],
                                  path_id := path_id e3 + 1\<rparr>"
        from fr Raise nb have f: "paths e3 = paths e @ [p @ [DBool True], p @ [DBool False]]"
          "path_id e3 = path_id e" "current_path e3 = p" "length p < depth r"
          by (simp_all add: run_frame_def e2_def)
        have "drop (Suc (path_id e)) (paths e4) = drop (Suc (path_id e)) (paths e) @ [p @ [DBool True], p @ [DBool False]]"
          using True by (simp add: e4_def f drop_update_cancel)
        then have "pending_weight (depth r) e4 < pending_weight (depth r) e"
          using dr path_weight_split [OF f(4), of "DBool True" "DBool False"]
          by (simp add: pending_weight_def e4_def f)
        from less [OF this] step Raise nb show ?thesis by (simp add: e4_def)
      qed
    qed
  qed
qed

subsection \<open>\<open>compile\<close> returns, in state Idle\<close>

lemma find_branches_total:
  "\<exists>out e'. find_branches func e = Some (out, e') \<and> out \<noteq> Raise NewBranch"
proof -
  obtain out e2 where
    "find_loop func (e\<lparr>paths := [[]], loops := [], path_id := 0\<rparr>) = Some (out, e2)"
    and "out \<noteq> Raise NewBranch"
    using find_loop_total by blast
  then show ?thesis
    by (cases out) (simp_all add: find_branches_def Let_def)
qed

lemma compile_body_total: "\<exists>res e'. compile_body func e = Some (res, e')"
proof -
  obtain out e1 where
    fb: "find_branches func (e\<lparr>state := STATE_BUILDING_BRANCHES\<rparr>) = Some (out, e1)"
    using find_branches_total by blast
  show ?thesis
  proof (cases out)
    case (Raise x)
    with fb show ?thesis by (simp add: compile_body_def)
  next
    case (Ok u)
    with fb show ?thesis
      by (simp add: compile_body_def Let_def split: prod.splits result.splits)
  qed
qed

text \<open>
  C8. Every call to \<open>compile\<close> exits, and leaves the engine's run state equal to Idle,
  whether it returns the root block (\<open>Ok\<close>) or raises (\<open>Raise\<close>): the \<open>finally\<close> clause
  sets the state before the exception goes on to the caller.
\<close>

theorem compile_leaves_idle:
  "\<exists>res e'. compile func e = Some (res, e') \<and> state e' = STATE_IDLE"
proof -
  obtain res e1 where "compile_body func e = Some (res, e1)"
    using compile_body_total by blast
  then show ?thesis by (simp add: compile_def)
qed

subsection \<open>One branch, two blocks\<close>

lemma value_byte_zero: "value_byte 0 i = CHR 0x00"
  by (simp add: value_byte_def char_of_def)

lemmas engine_defs = EngineBlock_def pointer_size_def write_str_def tell_def getvalue_def
  reset_def value_bytes_def value_byte_zero write_value_def set_buff_def set_jump_def push_def
  pop_def write_branch_def write_jump_def branch_def loop_def unknown_def call_enter_def
  call_exit_def

lemma branch_once_find_loop:
  "find_loop (branch_once c)
     \<lparr>buffer = [], state = STATE_BUILDING_BRANCHES, stack = [], current_block = None,
      state_blocks = Map.empty, path_stack = [], blocks = [], paths = [[]], loops = [],
      path_id = 0, current_path = [], branch_id = 0\<rparr>
   = Some (Ok (),
     \<lparr>buffer = [CHR 0x01, CHR 0x02], state = STATE_BUILDING_BRANCHES, stack = [],
      current_block = None, state_blocks = Map.empty, path_stack = [], blocks = [],
      paths = [[DNewBranch], [DBool True], [DBool False]], loops = [],
      path_id = 3, current_path = [DBool False], branch_id = 1\<rparr>)"
  by (simp add: find_loop.simps branch_once_def engine_defs Let_def)

lemma branch_once_find_branches:
  "find_branches (branch_once c) (Engine\<lparr>state := STATE_BUILDING_BRANCHES\<rparr>)
   = Some (Ok (),
     \<lparr>buffer = [CHR 0x01, CHR 0x02], state = STATE_BUILDING_BRANCHES, stack = [],
      current_block = None, state_blocks = Map.empty, path_stack = [], blocks = [],
      paths = [[DBool True], [DBool False]], loops = [],
      path_id = 3, current_path = [DBool False], branch_id = 1\<rparr>)"
  by (simp add: find_branches_def Engine_def branch_once_find_loop terminal_paths_def
      last_slice_def sort_reverse_def)

lemma branch_once_compile_paths:
  "compile_paths (branch_once c) [[DBool True], [DBool False]]
     \<lparr>buffer = [CHR 0x01, CHR 0x02], state = STATE_COMPILING, stack = [],
      current_block = Some 0, state_blocks = Map.empty, path_stack = [],
      blocks = [EngineBlock], paths = [[DBool True], [DBool False]], loops = [],
      path_id = 3, current_path = [DBool False], branch_id = Suc 0\<rparr>
   = (Ok (),
     \<lparr>buffer = replicate 8 (CHR 0x00), state = STATE_COMPILING, stack = [],
      current_block = Some 0,
      state_blocks = [[KDecision (DBool True)] \<mapsto> 1, [KDecision (DBool False)] \<mapsto> 2],
      path_stack = [],
      blocks = [\<lparr>buff = Some (replicate 8 (CHR 0x00)), jumps = [0 \<mapsto> 1, 4 \<mapsto> 2], offset = -1\<rparr>,
                \<lparr>buff = Some [CHR 0x01], jumps = Map.empty, offset = -1\<rparr>,
                \<lparr>buff = Some [CHR 0x02], jumps = Map.empty, offset = -1\<rparr>],
      paths = [[DBool True], [DBool False]], loops = [],
      path_id = 3, current_path = [DBool False], branch_id = 1\<rparr>)"
  by (simp add: branch_once_def engine_defs Let_def numeral_eq_Suc)

text \<open>
  C1, as the code has it. For the routine that calls \<open>branch\<close> once and writes byte 0x01
  on true, 0x02 on false, discovery leaves the terminal paths \<open>[(True,), (False,)]\<close>,
  already in the order of the reverse sort, and \<open>compile\<close> returns a root block of two
  adjacent 4-byte placeholder slots (8 zero bytes), whose jump at offset 0 is the block of
  content 0x01 and whose jump at offset 4 is the block of content 0x02.
\<close>

theorem branch_once_compiles:
  "\<exists>e1 e2 e3.
     find_loop (branch_once c)
       (Engine\<lparr>state := STATE_BUILDING_BRANCHES, paths := [[]], loops := [], path_id := 0\<rparr>)
       = Some (Ok (), e1)
     \<and> terminal_paths (paths e1) = [[DBool True], [DBool False]]
     \<and> find_branches (branch_once c) (Engine\<lparr>state := STATE_BUILDING_BRANCHES\<rparr>) = Some (Ok (), e2)
     \<and> paths e2 = [[DBool True], [DBool False]]
     \<and> compile (branch_once c) Engine = Some (Ok 0, e3)
     \<and> length (blocks e3) = 3
     \<and> buff (blocks e3 ! 0) = Some (replicate 8 (CHR 0x00))
     \<and> jumps (blocks e3 ! 0) = [0 \<mapsto> 1, 4 \<mapsto> 2]
     \<and> buff (blocks e3 ! 1) = Some [CHR 0x01]
     \<and> buff (blocks e3 ! 2) = Some [CHR 0x02]"
proof -
  have "compile (branch_once c) Engine = Some (Ok 0,
     \<lparr>buffer = replicate 8 (CHR 0x00), state = STATE_IDLE, stack = [],
      current_block = Some 0,
      state_blocks = [[KDecision (DBool True)] \<mapsto> 1, [KDecision (DBool False)] \<mapsto> 2],
      path_stack = [],
      blocks = [\<lparr>buff = Some (replicate 8 (CHR 0x00)), jumps = [0 \<mapsto> 1, 4 \<mapsto> 2], offset = -1\<rparr>,
                \<lparr>buff = Some [CHR 0x01], jumps = Map.empty, offset = -1\<rparr>,
                \<lparr>buff = Some [CHR 0x02], jumps = Map.empty, offset = -1\<rparr>],
      paths = [[DBool True], [DBool False]], loops = [],
      path_id = 3, current_path = [DBool False], branch_id = 1\<rparr>)"
    by (simp add: compile_def compile_body_def branch_once_find_branches
        branch_once_compile_paths Let_def del: compile_paths.simps)
  then show ?thesis
    by (simp add: branch_once_find_branches)
       (simp add: Engine_def branch_once_find_loop terminal_paths_def last_slice_def)
qed

text \<open>
  C1 as stated fails in the order it gives for the discovered paths: the terminal paths of
  that routine before the sort are not \<open>[(False,), (True,)]\<close>:
  \<open>branch\<close> appends the true continuation first.
\<close>

theorem branch_once_discovery_order:
  "terminal_paths (paths (snd (the (find_loop (branch_once ''c'')
       (Engine\<lparr>state := STATE_BUILDING_BRANCHES, paths := [[]], loops := [], path_id := 0\<rparr>)))))
   \<noteq> [[DBool False], [DBool True]]"
  by (simp add: Engine_def branch_once_find_loop terminal_paths_def last_slice_def)

subsection \<open>Discovery runs and the number of paths\<close>

lemma exec_walk:
  "exec r e = (out, e') \<Longrightarrow> state e \<noteq> STATE_COMPILING \<Longrightarrow> branch_id e \<le> length (current_path e)
   \<Longrightarrow> discovery_run r e out e'"
proof (induction r e arbitrary: out e' rule: exec.induct)
  case (1 e)
  then show ?case by (auto simp: discovery_run_def)
next
  case (2 s k e)
  from 2(2) have "exec k (write_str s e) = (out, e')" by simp
  from 2(1) [OF this] 2(3,4) show ?case by (simp add: discovery_run_def write_str_def)
next
  case (3 v sz k e)
  from 3(2) have "exec k (write_value v sz e) = (out, e')" by simp
  from 3(1) [OF this] 3(3,4) show ?case by (simp add: discovery_run_def write_value_def write_str_def)
next
  case (4 v sz k e)
  from 4(2,3) have "exec k e = (out, e')" by (simp add: unknown_def)
  with 4(1) [of out e'] 4(3,4) show ?case by (simp add: discovery_run_def unknown_def)
next
  case (5 c kt kf e)
  obtain o1 e1 where b: "branch c e = (o1, e1)" by (cases "branch c e")
  from b show ?case
  proof (cases rule: branch_cases)
    case beyond
    with 5(5) have d: "drop (branch_id e) (current_path e) = []" by simp
    from 5(3) b beyond have "out = Raise NewBranch" "e' = e1" by simp_all
    with beyond d show ?thesis by (simp add: discovery_run_def)
  next
    case discovering
    define val where "val = current_path e ! branch_id e"
    from discovering(1) have d: "drop (branch_id e) (current_path e) = val # drop (Suc (branch_id e)) (current_path e)"
      by (simp add: val_def Cons_nth_drop_Suc)
    have s1: "state e1 \<noteq> STATE_COMPILING" "branch_id e1 \<le> length (current_path e1)"
      "blocks e1 = blocks e" "current_block e1 = current_block e" "current_path e1 = current_path e"
      "branch_id e1 = Suc (branch_id e)"
      using discovering by simp_all
    show ?thesis
    proof (cases "truthy val")
      case True
      with 5(3) b discovering have "exec kt e1 = (out, e')" by (simp add: val_def)
      from 5(1) [OF b [symmetric] _ _ this s1(1,2)] discovering True
      have "discovery_run kt e1 out e'" by (simp add: val_def)
      with s1 d True show ?thesis by (simp add: discovery_run_def)
    next
      case False
      with 5(3) b discovering have "exec kf e1 = (out, e')" by (simp add: val_def)
      from 5(2) [OF b [symmetric] _ _ this s1(1,2)] discovering False
      have "discovery_run kf e1 out e'" by (simp add: val_def)
      with s1 d False show ?thesis by (simp add: discovery_run_def)
    qed
  next
    case (push_raised x)
    with 5(4) show ?thesis by simp
  next
    case (compiling e4 e5)
    with 5(4) show ?thesis by simp
  qed
next
  case (6 c k e)
  then show ?case by (auto simp: loop_def discovery_run_def)
next
  case (7 f body k e)
  from 7(4) have a: "call_enter f e = (Ok (), e)" by (simp add: call_enter_def)
  obtain o2 e2 where b: "exec body e = (o2, e2)" by (cases "exec body e")
  have db: "discovery_run body e o2 e2"
    by (rule 7(1) [OF a [symmetric] refl b 7(4,5)])
  from exec_frame [OF b] have fr: "state e2 = state e" "current_path e2 = current_path e"
    by (simp_all add: run_frame_def)
  show ?case
  proof (cases "walk_routine body (drop (branch_id e) (current_path e))")
    case Asked
    with db have "o2 = Raise NewBranch" by (simp add: discovery_run_def)
    with 7(3) a b have "out = Raise NewBranch" "e' = e2" by simp_all
    with db Asked show ?thesis by (simp add: discovery_run_def)
  next
    case Looped
    with db have "o2 = Raise NotImplementedError" by (simp add: discovery_run_def)
    with 7(3) a b have "out = Raise NotImplementedError" "e' = e2" by simp_all
    with db Looped show ?thesis by (simp add: discovery_run_def)
  next
    case Threw
    with db have "o2 = Raise UserError" by (simp add: discovery_run_def)
    with 7(3) a b have "out = Raise UserError" "e' = e2" by simp_all
    with db Threw show ?thesis by (simp add: discovery_run_def)
  next
    case (Finished rest)
    with db have o2: "o2 = Ok ()" and bi: "branch_id e2 \<le> length (current_path e)"
      and dr: "drop (branch_id e2) (current_path e) = rest"
      and bl: "blocks e2 = blocks e" "current_block e2 = current_block e"
      by (simp_all add: discovery_run_def)
    from fr 7(4) have c: "call_exit e2 = (Ok (), e2)" by (simp add: call_exit_def)
    from 7(3) a b o2 c have d: "exec k e2 = (out, e')" by simp
    from fr 7(4) bi have p: "state e2 \<noteq> STATE_COMPILING" "branch_id e2 \<le> length (current_path e2)"
      by simp_all
    from b o2 have b': "exec body e = (Ok (), e2)" by simp
    have "discovery_run k e2 out e'"
      by (rule 7(2) [OF a [symmetric] refl b' [symmetric] refl c [symmetric] refl d p])
    with Finished dr bl fr show ?thesis by (simp add: discovery_run_def)
  qed
next
  case (8 kt kf e)
  from 8(3,4) have "exec kf e = (out, e')" by simp
  from 8(2) [OF 8(4) this 8(4,5)] show ?case by (simp add: discovery_run_def)
next
  case (9 e)
  then show ?case by (auto simp: discovery_run_def)
qed

lemma find_loop_rule:
  assumes inv: "I e"
    and ok: "\<And>e e3. I e \<Longrightarrow> path_id e < length (paths e) \<Longrightarrow>
        exec r (e\<lparr>current_path := paths e ! path_id e, branch_id := 0\<rparr>) = (Ok (), e3) \<Longrightarrow>
        I (e3\<lparr>path_id := path_id e3 + 1\<rparr>)"
    and nb: "\<And>e e3. I e \<Longrightarrow> path_id e < length (paths e) \<Longrightarrow>
        exec r (e\<lparr>current_path := paths e ! path_id e, branch_id := 0\<rparr>) = (Raise NewBranch, e3) \<Longrightarrow>
        I (e3\<lparr>paths := (paths e3)[path_id e3 := current_path e3 @ [DNewBranch]],
              path_id := path_id e3 + 1\<rparr>)"
  shows "\<exists>out e'. find_loop r e = Some (out, e')
           \<and> (out = Ok () \<longrightarrow> I e' \<and> \<not> path_id e' < length (paths e'))
           \<and> (\<forall>x. out = Raise x \<longrightarrow> x \<noteq> NewBranch
                 \<and> (\<exists>e0. I e0 \<and> path_id e0 < length (paths e0)
                      \<and> exec r (e0\<lparr>current_path := paths e0 ! path_id e0, branch_id := 0\<rparr>)
                          = (Raise x, e')))"
  using inv
proof (induction "pending_weight (depth r) e" arbitrary: e rule: less_induct)
  case less
  show ?case
  proof (cases "path_id e < length (paths e)")
    case False
    with less.prems show ?thesis by (simp add: find_loop_stop)
  next
    case True
    define p where "p = paths e ! path_id e"
    define e2 where "e2 = e\<lparr>current_path := p, branch_id := 0\<rparr>"
    obtain out e3 where ex: "exec r e2 = (out, e3)" by (cases "exec r e2")
    note step = find_loop_step [OF True ex [unfolded e2_def p_def]]
    from exec_frame [OF ex] have fr: "run_frame (depth r) e2 (out = Raise NewBranch) e3" .
    have dr: "drop (path_id e) (paths e) = p # drop (Suc (path_id e)) (paths e)"
      using True by (simp add: p_def Cons_nth_drop_Suc)
    show ?thesis
    proof (cases out)
      case (Ok u)
      define e4 where "e4 = e3\<lparr>path_id := path_id e3 + 1\<rparr>"
      from fr Ok have "paths e3 = paths e" "path_id e3 = path_id e"
        by (simp_all add: run_frame_def e2_def)
      then have w: "pending_weight (depth r) e4 < pending_weight (depth r) e"
        using dr path_weight_pos [of "depth r" p] by (simp add: pending_weight_def e4_def)
      from ok [OF less.prems True] ex Ok have "I e4" by (simp add: e4_def e2_def p_def)
      from less.hyps [OF w this] step Ok show ?thesis by (simp add: e4_def)
    next
      case (Raise x)
      show ?thesis
      proof (cases "x = NewBranch")
        case False
        with step Raise less.prems True ex show ?thesis
          by (auto simp: e2_def p_def)
      next
        case nb': True
        define e4 where "e4 = e3\<lparr>paths := (paths e3)[path_id e3 := current_path e3 @ [DNewBranch]],
                                  path_id := path_id e3 + 1\<rparr>"
        from fr Raise nb' have f: "paths e3 = paths e @ [p @ [DBool True], p @ [DBool False]]"
          "path_id e3 = path_id e" "current_path e3 = p" "length p < depth r"
          by (simp_all add: run_frame_def e2_def)
        have "drop (Suc (path_id e)) (paths e4) = drop (Suc (path_id e)) (paths e) @ [p @ [DBool True], p @ [DBool False]]"
          using True by (simp add: e4_def f)
        then have w: "pending_weight (depth r) e4 < pending_weight (depth r) e"
          using dr path_weight_split [OF f(4), of "DBool True" "DBool False"]
          by (simp add: pending_weight_def e4_def f)
        from nb [OF less.prems True] ex Raise nb' have "I e4" by (simp add: e4_def e2_def p_def)
        from less.hyps [OF w this] step Raise nb' show ?thesis by (simp add: e4_def)
      qed
    qed
  qed
qed

lemma walk_branch_calls:
  "branch_calls r = Some k \<Longrightarrow>
   walk_routine r ds = (if k \<le> length ds then Finished (drop k ds) else Asked)"
proof (induction r arbitrary: k ds)
  case (Branch c kt kf)
  then obtain j where j: "branch_calls kt = Some j" "branch_calls kf = Some j" "k = Suc j"
    by (auto split: option.splits if_splits)
  show ?case
  proof (cases ds)
    case Nil
    with j show ?thesis by simp
  next
    case (Cons d rest)
    with j Branch.IH(1) [OF j(1), of rest] Branch.IH(2) [OF j(2), of rest] show ?thesis by simp
  qed
next
  case (Call f body k')
  then obtain a b where ab: "branch_calls body = Some a" "branch_calls k' = Some b" "k = a + b"
    by (auto split: option.splits)
  show ?case
  proof (cases "a \<le> length ds")
    case True
    with ab Call.IH(1) [OF ab(1), of ds] Call.IH(2) [OF ab(2), of "drop a ds"] show ?thesis
      by (auto simp: add.commute)
  next
    case False
    with ab Call.IH(1) [OF ab(1), of ds] show ?thesis by simp
  qed
next
  case (IfCompiling kt kf)
  then have "branch_calls kf = Some k" by (auto split: option.splits if_splits)
  with IfCompiling.IH(2) show ?case by simp
qed (simp_all)

lemma terminal_paths_append [simp]:
  "terminal_paths (xs @ ys) = terminal_paths xs @ terminal_paths ys"
  by (simp add: terminal_paths_def)

lemma terminal_paths_marked [simp]: "terminal_paths [p @ [DNewBranch]] = []"
  by (simp add: terminal_paths_def last_slice_def)

lemma last_slice_bool [simp]: "last_slice (p @ [DBool b]) \<noteq> [DNewBranch]"
  by (simp add: last_slice_def)

lemma length_insert_desc [simp]: "length (insert_desc p qs) = Suc (length qs)"
  by (induction qs) simp_all

lemma set_insert_desc [simp]: "set (insert_desc p qs) = insert p (set qs)"
  by (induction qs) auto

lemma length_sort_reverse [simp]: "length (sort_reverse ps) = length ps"
  by (induction ps) (simp_all add: sort_reverse_def)

lemma set_sort_reverse [simp]: "set (sort_reverse ps) = set ps"
  by (induction ps) (simp_all add: sort_reverse_def)

lemma counted_run:
  assumes bc: "branch_calls r = Some k"
    and c: "counted k n e"
    and i: "path_id e < length (paths e)"
    and ex: "exec r (e\<lparr>current_path := paths e ! path_id e, branch_id := 0\<rparr>) = (out, e3)"
  shows "(if k \<le> length (paths e ! path_id e) then out = Ok () \<and> length (paths e ! path_id e) = k
          else out = Raise NewBranch)
         \<and> run_frame (depth r) (e\<lparr>current_path := paths e ! path_id e, branch_id := 0\<rparr>)
              (out = Raise NewBranch) e3"
proof -
  define p where "p = paths e ! path_id e"
  from i have "p \<in> set (drop (path_id e) (paths e))"
    by (simp add: p_def Cons_nth_drop_Suc [symmetric])
  with c have pk: "length p \<le> k" by (simp add: counted_def)
  from c have "state (e\<lparr>current_path := p, branch_id := 0\<rparr>) \<noteq> STATE_COMPILING"
    by (simp add: counted_def)
  from exec_walk [OF ex [folded p_def] this] walk_branch_calls [OF bc, of p] pk
  have "if k \<le> length p then out = Ok () \<and> length p = k else out = Raise NewBranch"
    by (auto simp: discovery_run_def)
  with exec_frame [OF ex] show ?thesis unfolding p_def by simp
qed

lemma counted_ok:
  assumes bc: "branch_calls r = Some k"
    and c: "counted k n e"
    and i: "path_id e < length (paths e)"
    and ex: "exec r (e\<lparr>current_path := paths e ! path_id e, branch_id := 0\<rparr>) = (Ok (), e3)"
  shows "counted k n (e3\<lparr>path_id := path_id e3 + 1\<rparr>)"
proof -
  define p where "p = paths e ! path_id e"
  from counted_run [OF bc c i ex] have pk: "length p = k"
    and f: "paths e3 = paths e" "path_id e3 = path_id e" "state e3 = state e"
    by (simp_all add: p_def run_frame_def split: if_splits)
  have dr: "drop (path_id e) (paths e) = p # drop (Suc (path_id e)) (paths e)"
    using i by (simp add: p_def Cons_nth_drop_Suc)
  have tk: "take (Suc (path_id e)) (paths e) = take (path_id e) (paths e) @ [p]"
    using i by (simp add: p_def take_Suc_conv_app_nth)
  from c dr have t: "terminal_paths [p] = [p]"
    by (simp add: counted_def terminal_paths_def)
  from c show ?thesis
    unfolding counted_def by (simp add: f tk t dr pk)
qed

lemma counted_nb:
  assumes bc: "branch_calls r = Some k"
    and c: "counted k n e"
    and i: "path_id e < length (paths e)"
    and ex: "exec r (e\<lparr>current_path := paths e ! path_id e, branch_id := 0\<rparr>) = (Raise NewBranch, e3)"
  shows "counted k n (e3\<lparr>paths := (paths e3)[path_id e3 := current_path e3 @ [DNewBranch]],
              path_id := path_id e3 + 1\<rparr>)"
proof -
  define p where "p = paths e ! path_id e"
  from counted_run [OF bc c i ex] have pk: "length p < k"
    and f: "paths e3 = paths e @ [p @ [DBool True], p @ [DBool False]]" "path_id e3 = path_id e"
      "state e3 = state e" "current_path e3 = p"
    by (simp_all add: p_def run_frame_def split: if_splits)
  have dr: "drop (path_id e) (paths e) = p # drop (Suc (path_id e)) (paths e)"
    using i by (simp add: p_def Cons_nth_drop_Suc)
  have tk: "take (Suc (path_id e)) ((paths e @ [p @ [DBool True], p @ [DBool False]])[path_id e := p @ [DNewBranch]])
      = take (path_id e) (paths e) @ [p @ [DNewBranch]]"
    using i by (simp add: take_Suc_conv_app_nth list_update_append nth_list_update)
  have dp: "drop (Suc (path_id e)) ((paths e @ [p @ [DBool True], p @ [DBool False]])[path_id e := p @ [DNewBranch]])
      = drop (Suc (path_id e)) (paths e) @ [p @ [DBool True], p @ [DBool False]]"
    using i by simp
  from pk have pw: "(2::nat) ^ (k - length p) = 2 ^ (k - Suc (length p)) + 2 ^ (k - Suc (length p))"
    by (metis Suc_diff_Suc mult_2 power_Suc)
  from c pk show ?thesis
    unfolding counted_def by (simp add: f tk dp dr pw)
qed

lemma find_loop_counted:
  assumes bc: "branch_calls r = Some k" and c: "counted k n e"
  shows "\<exists>e'. find_loop r e = Some (Ok (), e') \<and> length (terminal_paths (paths e')) = n
           \<and> (\<forall>p \<in> set (terminal_paths (paths e')). length p = k)"
proof -
  have "\<exists>out e'. find_loop r e = Some (out, e')
           \<and> (out = Ok () \<longrightarrow> counted k n e' \<and> \<not> path_id e' < length (paths e'))
           \<and> (\<forall>x. out = Raise x \<longrightarrow> x \<noteq> NewBranch
                 \<and> (\<exists>e0. counted k n e0 \<and> path_id e0 < length (paths e0)
                      \<and> exec r (e0\<lparr>current_path := paths e0 ! path_id e0, branch_id := 0\<rparr>)
                          = (Raise x, e')))"
    using c by (rule find_loop_rule) (erule (2) counted_ok [OF bc] counted_nb [OF bc])+
  then obtain out e' where fl: "find_loop r e = Some (out, e')"
    and o: "out = Ok () \<longrightarrow> counted k n e' \<and> \<not> path_id e' < length (paths e')"
    and x: "\<forall>x. out = Raise x \<longrightarrow> x \<noteq> NewBranch
                 \<and> (\<exists>e0. counted k n e0 \<and> path_id e0 < length (paths e0)
                      \<and> exec r (e0\<lparr>current_path := paths e0 ! path_id e0, branch_id := 0\<rparr>)
                          = (Raise x, e'))"
    by blast
  show ?thesis
  proof (cases out)
    case (Raise x)
    with x obtain e0 where "x \<noteq> NewBranch" "counted k n e0" "path_id e0 < length (paths e0)"
      "exec r (e0\<lparr>current_path := paths e0 ! path_id e0, branch_id := 0\<rparr>) = (Raise x, e')"
      by blast
    with counted_run [OF bc this(2,3,4)] show ?thesis by (simp split: if_splits)
  next
    case (Ok u)
    with o have "counted k n e'" "length (paths e') \<le> path_id e'" by simp_all
    with fl Ok show ?thesis by (simp add: counted_def)
  qed
qed

text \<open>
  C2. For every routine that makes exactly \<open>k\<close> branch calls on every execution, the
  discovery phase returns with exactly \<open>2 ^ k\<close> terminal paths, each of \<open>k\<close>
  decisions; for \<open>k = 0\<close> that is the one empty decision sequence.
\<close>

theorem discovery_yields_two_to_the_k:
  assumes "branch_calls func = Some k"
  shows "\<exists>e'. find_branches func (e\<lparr>state := STATE_BUILDING_BRANCHES\<rparr>) = Some (Ok (), e')
           \<and> length (paths e') = 2 ^ k
           \<and> (\<forall>p \<in> set (paths e'). length p = k)
           \<and> (k = 0 \<longrightarrow> paths e' = [[]])"
proof -
  define e1 where "e1 = e\<lparr>state := STATE_BUILDING_BRANCHES, paths := [[]], loops := [], path_id := 0\<rparr>"
  have "counted k (2 ^ k) e1"
    by (simp add: counted_def e1_def last_slice_def terminal_paths_def)
  from find_loop_counted [OF assms this] obtain e2 where
    fl: "find_loop func e1 = Some (Ok (), e2)"
    and n: "length (terminal_paths (paths e2)) = 2 ^ k"
    and l: "\<forall>p \<in> set (terminal_paths (paths e2)). length p = k"
    by blast
  define e' where "e' = e2\<lparr>paths := sort_reverse (terminal_paths (paths e2))\<rparr>"
  from fl have fb: "find_branches func (e\<lparr>state := STATE_BUILDING_BRANCHES\<rparr>) = Some (Ok (), e')"
    by (simp add: find_branches_def e1_def e'_def Let_def)
  have len: "length (paths e') = 2 ^ k" and all: "\<forall>p \<in> set (paths e'). length p = k"
    using n l by (simp_all add: e'_def)
  have "paths e' = [[]]" if "k = 0"
  proof -
    from len that obtain p where "paths e' = [p]"
      by (cases "paths e'") (auto simp: length_Suc_conv)
    with all that show ?thesis by simp
  qed
  with fb len all show ?thesis by blast
qed

theorem discovery_yields_two_to_the_k_witness:
  "branch_calls (branch_once ''c'') = Some 1
   \<and> (\<exists>e'. find_branches (branch_once ''c'') (Engine\<lparr>state := STATE_BUILDING_BRANCHES\<rparr>)
               = Some (Ok (), e')
          \<and> length (paths e') = 2 ^ 1 \<and> (\<forall>p \<in> set (paths e'). length p = 1))
   \<and> branch_calls (Write ''a'' Return) = Some 0
   \<and> (\<exists>e'. find_branches (Write ''a'' Return) (Engine\<lparr>state := STATE_BUILDING_BRANCHES\<rparr>)
               = Some (Ok (), e')
          \<and> paths e' = [[]])"
proof -
  have one: "branch_calls (branch_once ''c'') = Some 1"
    by (simp add: branch_once_def)
  have none: "branch_calls (Write ''a'' Return) = Some 0"
    by simp
  from discovery_yields_two_to_the_k [OF one, of Engine]
    discovery_yields_two_to_the_k [OF none, of Engine] one none
  show ?thesis by blast
qed

subsection \<open>Routines that call \<open>loop\<close>\<close>

lemma walk_append:
  "walk_routine r ds = Finished rest \<Longrightarrow> walk_routine r (ds @ xs) = Finished (rest @ xs)"
proof (induction r arbitrary: ds rest)
  case (Branch c kt kf)
  then show ?case by (cases ds) (auto split: if_splits)
next
  case (Call f body k)
  then show ?case by (auto split: walk.splits)
qed simp_all

lemma walk_not_threw: "\<not> throws r \<Longrightarrow> walk_routine r ds \<noteq> Threw"
proof (induction r arbitrary: ds)
  case (Branch c kt kf)
  then show ?case by (cases ds) auto
next
  case (Call f body k)
  then show ?case by (auto split: walk.splits)
qed simp_all

lemma walk_no_loop:
  "\<not> calls_loop r \<Longrightarrow> \<not> throws r \<Longrightarrow>
   \<exists>bs. \<forall>xs. walk_routine r (map DBool bs @ xs) = Finished xs"
proof (induction r)
  case Return
  show ?case by (rule exI [of _ "[]"]) simp
next
  case (Branch c kt kf)
  then obtain bs where "\<forall>xs. walk_routine kt (map DBool bs @ xs) = Finished xs" by auto
  then have "\<forall>xs. walk_routine (Branch c kt kf) (map DBool (True # bs) @ xs) = Finished xs" by simp
  then show ?case by blast
next
  case (Call f body k)
  then obtain b1 b2 where "\<forall>xs. walk_routine body (map DBool b1 @ xs) = Finished xs"
    "\<forall>xs. walk_routine k (map DBool b2 @ xs) = Finished xs" by auto
  then have "\<forall>xs. walk_routine (Call f body k) (map DBool (b1 @ b2) @ xs) = Finished xs" by simp
  then show ?case by blast
qed simp_all

lemma walk_calls_loop:
  "calls_loop r \<Longrightarrow> \<not> throws r \<Longrightarrow>
   \<exists>bs. \<forall>xs. walk_routine r (map DBool bs @ xs) = Looped"
proof (induction r)
  case (Branch c kt kf)
  show ?case
  proof (cases "calls_loop kt")
    case True
    with Branch.IH(1) Branch.prems obtain bs where
      "\<forall>xs. walk_routine kt (map DBool bs @ xs) = Looped" by auto
    then have "\<forall>xs. walk_routine (Branch c kt kf) (map DBool (True # bs) @ xs) = Looped" by simp
    then show ?thesis by blast
  next
    case False
    with Branch.IH(2) Branch.prems obtain bs where
      "\<forall>xs. walk_routine kf (map DBool bs @ xs) = Looped" by auto
    then have "\<forall>xs. walk_routine (Branch c kt kf) (map DBool (False # bs) @ xs) = Looped" by simp
    then show ?thesis by blast
  qed
next
  case (Loop c k)
  show ?case by simp
next
  case (Call f body k)
  show ?case
  proof (cases "calls_loop body")
    case True
    with Call.IH(1) Call.prems obtain bs where
      "\<forall>xs. walk_routine body (map DBool bs @ xs) = Looped" by auto
    then have "\<forall>xs. walk_routine (Call f body k) (map DBool bs @ xs) = Looped" by simp
    then show ?thesis by blast
  next
    case False
    from Call.prems have nt: "\<not> throws body" "\<not> throws k" by simp_all
    from walk_no_loop [OF False nt(1)] obtain b1 where
      b1: "\<forall>xs. walk_routine body (map DBool b1 @ xs) = Finished xs" by blast
    from False Call.prems Call.IH(2) nt obtain b2 where
      b2: "\<forall>xs. walk_routine k (map DBool b2 @ xs) = Looped" by auto
    from b1 b2 have "\<forall>xs. walk_routine (Call f body k) (map DBool (b1 @ b2) @ xs) = Looped" by simp
    then show ?thesis by blast
  qed
qed simp_all

lemma pending_run:
  assumes c: "loop_pending r bs cb e"
    and i: "path_id e < length (paths e)"
    and ex: "exec r (e\<lparr>current_path := paths e ! path_id e, branch_id := 0\<rparr>) = (out, e3)"
  shows "blocks e3 = bs \<and> current_block e3 = cb \<and> state e3 \<noteq> STATE_COMPILING
     \<and> (\<forall>rest. walk_routine r (paths e ! path_id e) = Finished rest \<longrightarrow> out = Ok ())
     \<and> (walk_routine r (paths e ! path_id e) = Asked \<longrightarrow> out = Raise NewBranch)
     \<and> (walk_routine r (paths e ! path_id e) = Looped \<longrightarrow> out = Raise NotImplementedError)
     \<and> (walk_routine r (paths e ! path_id e) = Threw \<longrightarrow> out = Raise UserError)
     \<and> run_frame (depth r) (e\<lparr>current_path := paths e ! path_id e, branch_id := 0\<rparr>)
              (out = Raise NewBranch) e3"
proof -
  from c have "state (e\<lparr>current_path := paths e ! path_id e, branch_id := 0\<rparr>) \<noteq> STATE_COMPILING"
    by (simp add: loop_pending_def)
  from exec_walk [OF ex this] c have a: "blocks e3 = bs \<and> current_block e3 = cb
     \<and> (\<forall>rest. walk_routine r (paths e ! path_id e) = Finished rest \<longrightarrow> out = Ok ())
     \<and> (walk_routine r (paths e ! path_id e) = Asked \<longrightarrow> out = Raise NewBranch)
     \<and> (walk_routine r (paths e ! path_id e) = Looped \<longrightarrow> out = Raise NotImplementedError)
     \<and> (walk_routine r (paths e ! path_id e) = Threw \<longrightarrow> out = Raise UserError)"
    by (simp add: discovery_run_def loop_pending_def)
  note b = exec_frame [OF ex]
  from b c have "state e3 \<noteq> STATE_COMPILING"
    by (simp add: run_frame_def loop_pending_def)
  with a b show ?thesis by simp
qed

lemma pending_ok:
  assumes c: "loop_pending r bs cb e"
    and i: "path_id e < length (paths e)"
    and ex: "exec r (e\<lparr>current_path := paths e ! path_id e, branch_id := 0\<rparr>) = (Ok (), e3)"
  shows "loop_pending r bs cb (e3\<lparr>path_id := path_id e3 + 1\<rparr>)"
proof -
  note pr = pending_run [OF c i ex]
  then have f: "paths e3 = paths e" "path_id e3 = path_id e"
    by (simp_all add: run_frame_def)
  from pr obtain rest where w: "walk_routine r (paths e ! path_id e) = Finished rest"
    by (cases "walk_routine r (paths e ! path_id e)") auto
  from c obtain j ds where j: "path_id e \<le> j" "j < length (paths e)"
    "walk_routine r (paths e ! j @ map DBool ds) = Looped"
    by (auto simp: loop_pending_def)
  from walk_append [OF w, of "map DBool ds"] j(3) have "j \<noteq> path_id e" by auto
  with j(1) have "Suc (path_id e) \<le> j" by simp
  with j pr f show ?thesis by (auto simp: loop_pending_def)
qed

lemma pending_nb:
  assumes c: "loop_pending r bs cb e"
    and i: "path_id e < length (paths e)"
    and ex: "exec r (e\<lparr>current_path := paths e ! path_id e, branch_id := 0\<rparr>) = (Raise NewBranch, e3)"
  shows "loop_pending r bs cb (e3\<lparr>paths := (paths e3)[path_id e3 := current_path e3 @ [DNewBranch]],
              path_id := path_id e3 + 1\<rparr>)"
proof -
  define p where "p = paths e ! path_id e"
  define new where "new = (paths e @ [p @ [DBool True], p @ [DBool False]])[path_id e := p @ [DNewBranch]]"
  note pr = pending_run [OF c i ex]
  then have f: "paths e3 = paths e @ [p @ [DBool True], p @ [DBool False]]" "path_id e3 = path_id e"
    "current_path e3 = p"
    by (simp_all add: run_frame_def p_def)
  from pr have w: "walk_routine r p \<noteq> Looped" by (auto simp: p_def)
  from c obtain j ds where j: "path_id e \<le> j" "j < length (paths e)"
    "walk_routine r (paths e ! j @ map DBool ds) = Looped"
    by (auto simp: loop_pending_def)
  have len: "length new = length (paths e) + 2" by (simp add: new_def)
  have "\<exists>j' ds'. Suc (path_id e) \<le> j' \<and> j' < length new
          \<and> walk_routine r (new ! j' @ map DBool ds') = Looped"
  proof (cases "j = path_id e")
    case False
    with j have "new ! j = paths e ! j" by (simp add: new_def nth_append)
    with j False len show ?thesis by (intro exI [of _ j] exI [of _ ds]) simp
  next
    case True
    with j(3) w obtain b ds' where ds: "ds = b # ds'" by (cases ds) (auto simp: p_def)
    define j' where "j' = (if b then length (paths e) else Suc (length (paths e)))"
    from i have "new ! j' = p @ [DBool b]"
      by (auto simp: new_def j'_def nth_append)
    with j(3) True ds have "walk_routine r (new ! j' @ map DBool ds') = Looped"
      by (simp add: p_def)
    moreover from i have "Suc (path_id e) \<le> j'" "j' < length new" by (auto simp: j'_def len)
    ultimately show ?thesis by blast
  qed
  with pr f show ?thesis by (simp add: loop_pending_def new_def)
qed

lemma find_loop_pending:
  assumes c: "loop_pending r bs cb e" and nt: "\<not> throws r"
  shows "\<exists>e'. find_loop r e = Some (Raise NotImplementedError, e') \<and> blocks e' = bs
           \<and> current_block e' = cb"
proof -
  have "\<exists>out e'. find_loop r e = Some (out, e')
           \<and> (out = Ok () \<longrightarrow> loop_pending r bs cb e' \<and> \<not> path_id e' < length (paths e'))
           \<and> (\<forall>x. out = Raise x \<longrightarrow> x \<noteq> NewBranch
                 \<and> (\<exists>e0. loop_pending r bs cb e0 \<and> path_id e0 < length (paths e0)
                      \<and> exec r (e0\<lparr>current_path := paths e0 ! path_id e0, branch_id := 0\<rparr>)
                          = (Raise x, e')))"
    using c by (rule find_loop_rule) (erule (2) pending_ok pending_nb)+
  then obtain out e' where fl: "find_loop r e = Some (out, e')"
    and o: "out = Ok () \<longrightarrow> loop_pending r bs cb e' \<and> \<not> path_id e' < length (paths e')"
    and x: "\<forall>x. out = Raise x \<longrightarrow> x \<noteq> NewBranch
                 \<and> (\<exists>e0. loop_pending r bs cb e0 \<and> path_id e0 < length (paths e0)
                      \<and> exec r (e0\<lparr>current_path := paths e0 ! path_id e0, branch_id := 0\<rparr>)
                          = (Raise x, e'))"
    by blast
  show ?thesis
  proof (cases out)
    case (Ok u)
    with o show ?thesis by (auto simp: loop_pending_def)
  next
    case (Raise x)
    with x obtain e0 where nn: "x \<noteq> NewBranch" and e0: "loop_pending r bs cb e0"
      "path_id e0 < length (paths e0)"
      "exec r (e0\<lparr>current_path := paths e0 ! path_id e0, branch_id := 0\<rparr>) = (Raise x, e')"
      by blast
    note pr = pending_run [OF e0]
    with nn walk_not_threw [OF nt, of "paths e0 ! path_id e0"] have "x = NotImplementedError"
      by (cases "walk_routine r (paths e0 ! path_id e0)") auto
    with pr fl Raise show ?thesis by simp
  qed
qed

lemma write_branch_loop_compile:
  "compile write_branch_loop Engine = Some (Raise NotImplementedError,
     \<lparr>buffer = ''aa'', state = STATE_IDLE, stack = [],
      current_block = None, state_blocks = Map.empty, path_stack = [], blocks = [],
      paths = [[DNewBranch], [DBool True], [DBool False]], loops = [], path_id = 1,
      current_path = [DBool True], branch_id = 1\<rparr>)"
  by (simp add: compile_def compile_body_def find_branches_def find_loop.simps Engine_def
      write_branch_loop_def branch_def loop_def write_str_def Let_def)

text \<open>
  C6, as the code has it. If some run of the routine in the discovery phase calls
  \<open>loop\<close> (and the routine raises no exception of its own),
  \<open>compile\<close> fails with \<open>NotImplementedError\<close> during discovery: no block
  has been created or written, and the engine is back in state Idle. There is no check
  before exploration: \<open>loop\<close> raises when the routine reaches it, so paths may have been
  enqueued and bytes written to the buffer by then. When \<open>loop\<close> is the first thing the
  routine does, nothing has been enqueued beyond the initial empty path and the buffer
  and the blocks are untouched.
\<close>

theorem loop_fails_compile:
  "(calls_loop func \<and> \<not> throws func \<longrightarrow>
      (\<exists>e'. compile func e = Some (Raise NotImplementedError, e')
         \<and> blocks e' = blocks e \<and> current_block e' = current_block e \<and> state e' = STATE_IDLE))
   \<and> compile (Loop c k) e = Some (Raise NotImplementedError,
        e\<lparr>state := STATE_IDLE, paths := [[]], loops := [], path_id := 0, current_path := [],
          branch_id := 0\<rparr>)"
proof (intro conjI impI)
  assume "calls_loop func \<and> \<not> throws func"
  then have cl: "calls_loop func" and nt: "\<not> throws func" by simp_all
  define e1 where "e1 = e\<lparr>state := STATE_BUILDING_BRANCHES, paths := [[]], loops := [], path_id := 0\<rparr>"
  from walk_calls_loop [OF cl nt] obtain ds where "walk_routine func (map DBool ds) = Looped"
    by (metis append_Nil2)
  then have "loop_pending func (blocks e) (current_block e) e1"
    by (auto simp: loop_pending_def e1_def)
  from find_loop_pending [OF this nt] obtain e2 where
    "find_loop func e1 = Some (Raise NotImplementedError, e2)" "blocks e2 = blocks e"
    "current_block e2 = current_block e"
    by blast
  then show "\<exists>e'. compile func e = Some (Raise NotImplementedError, e')
         \<and> blocks e' = blocks e \<and> current_block e' = current_block e \<and> state e' = STATE_IDLE"
    by (simp add: compile_def compile_body_def find_branches_def e1_def Let_def)
next
  show "compile (Loop c k) e = Some (Raise NotImplementedError,
        e\<lparr>state := STATE_IDLE, paths := [[]], loops := [], path_id := 0, current_path := [],
          branch_id := 0\<rparr>)"
    by (simp add: compile_def compile_body_def find_branches_def find_loop.simps loop_def Let_def)
qed

theorem loop_fails_compile_witness:
  "calls_loop write_branch_loop \<and> \<not> throws write_branch_loop
   \<and> (\<exists>e'. compile write_branch_loop Engine = Some (Raise NotImplementedError, e')
         \<and> blocks e' = blocks Engine \<and> current_block e' = current_block Engine
         \<and> state e' = STATE_IDLE)"
proof -
  have "calls_loop write_branch_loop \<and> \<not> throws write_branch_loop"
    by (simp add: write_branch_loop_def)
  with loop_fails_compile [of write_branch_loop Engine] show ?thesis by blast
qed

text \<open>
  C6 as stated fails: for a routine that writes a byte and branches before it calls
  \<open>loop\<close>, \<open>compile\<close> fails only after two continuation paths have been enqueued and
  with two bytes in the buffer.
\<close>

theorem loop_after_branch_is_not_immediate:
  "compile write_branch_loop Engine = Some (Raise NotImplementedError,
     \<lparr>buffer = ''aa'', state = STATE_IDLE, stack = [],
      current_block = None, state_blocks = Map.empty, path_stack = [], blocks = [],
      paths = [[DNewBranch], [DBool True], [DBool False]], loops = [], path_id = 1,
      current_path = [DBool True], branch_id = 1\<rparr>)"
  by (rule write_branch_loop_compile)

subsection \<open>What \<open>branch\<close> returns\<close>

text \<open>
  C7. The decision returned by \<open>branch\<close> depends only on the position of the call and
  never on the condition argument: the condition does not enter the result at all; a
  returned decision is the element of the current path at position \<open>branch_id\<close>; and two
  executions in the same phase that hold the same path and have made the same number of
  \<open>branch\<close> calls get the same outcome whatever conditions they pass.
\<close>

theorem branch_ignores_condition:
  "branch c1 e = branch c2 e
   \<and> (fst (branch c e) = Ok v \<longrightarrow> v = current_path e ! branch_id e)
   \<and> (current_path e1 = current_path e2 \<and> branch_id e1 = branch_id e2 \<and> state e1 = state e2
        \<and> (current_block e1 = None \<longleftrightarrow> current_block e2 = None)
      \<longrightarrow> fst (branch c1 e1) = fst (branch c2 e2))"
proof (intro conjI impI)
  show "branch c1 e = branch c2 e"
    by (simp add: branch_def write_branch_def Let_def)
  show "v = current_path e ! branch_id e" if "fst (branch c e) = Ok v"
    using that
    by (auto simp: branch_def write_branch_def Let_def split: if_splits prod.splits result.splits)
  show "fst (branch c1 e1) = fst (branch c2 e2)"
    if h: "current_path e1 = current_path e2 \<and> branch_id e1 = branch_id e2 \<and> state e1 = state e2
        \<and> (current_block e1 = None \<longleftrightarrow> current_block e2 = None)"
  proof -
    have p: "fst (push k a) = (if current_block a = None then Raise AttributeError else Ok ())" for k a
      by (simp add: push_def Let_def split: option.splits)
    have "fst (branch c a) =
        (if branch_id a < length (current_path a)
         then if state a = STATE_COMPILING \<and> current_block a = None then Raise AttributeError
              else Ok (current_path a ! branch_id a)
         else Raise NewBranch)" for c a
      using p [of "KDecision (current_path a ! branch_id a)"
                  "write_value 0 (int pointer_size) (write_value 0 (int pointer_size) (a\<lparr>branch_id := Suc (branch_id a)\<rparr>))"]
      by (auto simp: branch_def write_branch_def Let_def write_value_def write_str_def split: prod.splits result.splits if_splits)
    with h show ?thesis by simp
  qed
qed

theorem branch_ignores_condition_witness:
  "fst (branch ''x < 1'' (Engine\<lparr>current_path := [DBool True]\<rparr>)) = Ok (DBool True)
   \<and> current_path (Engine\<lparr>current_path := [DBool True], buffer := ''a''\<rparr>)
       = current_path (Engine\<lparr>current_path := [DBool True]\<rparr>)
   \<and> branch_id (Engine\<lparr>current_path := [DBool True], buffer := ''a''\<rparr>)
       = branch_id (Engine\<lparr>current_path := [DBool True]\<rparr>)
   \<and> state (Engine\<lparr>current_path := [DBool True], buffer := ''a''\<rparr>)
       = state (Engine\<lparr>current_path := [DBool True]\<rparr>)
   \<and> (current_block (Engine\<lparr>current_path := [DBool True], buffer := ''a''\<rparr>) = None
        \<longleftrightarrow> current_block (Engine\<lparr>current_path := [DBool True]\<rparr>) = None)
   \<and> DBool True = current_path (Engine\<lparr>current_path := [DBool True]\<rparr>)
         ! branch_id (Engine\<lparr>current_path := [DBool True]\<rparr>)
   \<and> fst (branch ''x < 1'' (Engine\<lparr>current_path := [DBool True], buffer := ''a''\<rparr>))
       = fst (branch ''y'' (Engine\<lparr>current_path := [DBool True]\<rparr>))"
  using branch_ignores_condition [of "''x < 1''" "Engine\<lparr>current_path := [DBool True]\<rparr>"
      "''y''" "''x < 1''" "DBool True"
      "Engine\<lparr>current_path := [DBool True], buffer := ''a''\<rparr>"
      "Engine\<lparr>current_path := [DBool True]\<rparr>"]
  by (simp add: Engine_def branch_def)

subsection \<open>How far the escape signal travels\<close>

lemma set_buff_paths [simp]: "paths (set_buff h s e) = paths e"
  by (simp add: set_buff_def)

lemma unwind_frame: "unwind e = (out, e') \<Longrightarrow> paths e' = paths e \<and> out \<noteq> Raise NewBranch"
proof (induction e arbitrary: out e' rule: unwind.induct)
  case (1 e)
  show ?case
  proof (cases "stack e = []")
    case True
    with 1(2) show ?thesis by auto
  next
    case False
    obtain o1 e1 where p: "pop e = (o1, e1)" by (cases "pop e")
    from pop_frame [OF p] have pf: "paths e1 = paths e" "o1 \<noteq> Raise NewBranch"
      by (simp_all add: run_frame_def)
    show ?thesis
    proof (cases o1)
      case (Raise x)
      with 1(2) False p pf show ?thesis by auto
    next
      case (Ok u)
      with 1(2) False p have "unwind e1 = (out, e')" by simp
      from 1(1) [OF False p [symmetric] _ this] Ok pf show ?thesis by simp
    qed
  qed
qed

lemma compile_paths_frame:
  "compile_paths func ps e = (out, e') \<Longrightarrow>
     (if out = Raise NewBranch
      then \<exists>p \<in> set ps. paths e' = paths e @ [p @ [DBool True], p @ [DBool False]]
      else paths e' = paths e)"
proof (induction ps arbitrary: e)
  case Nil
  then show ?case by auto
next
  case (Cons path rest)
  define e3 where "e3 = (reset e)\<lparr>branch_id := 0, current_path := path\<rparr>"
  have e3: "paths e3 = paths e" "current_path e3 = path" by (simp_all add: e3_def reset_def)
  obtain o4 e4 where ex: "exec func e3 = (o4, e4)" by (cases "exec func e3")
  from exec_frame [OF ex] e3
  have fr: "if o4 = Raise NewBranch then paths e4 = paths e @ [path @ [DBool True], path @ [DBool False]]
            else paths e4 = paths e"
    by (simp add: run_frame_def split: if_splits)
  show ?case
  proof (cases o4)
    case (Raise x)
    with Cons.prems ex have "out = Raise x" "e' = e4" by (simp_all add: Let_def e3_def)
    with fr Raise show ?thesis by auto
  next
    case (Ok u)
    with fr have p4: "paths e4 = paths e" by simp
    show ?thesis
    proof (cases "current_block e4")
      case None
      with Cons.prems ex Ok have "out = Raise AttributeError" "e' = e4" by (simp_all add: Let_def e3_def)
      with p4 show ?thesis by simp
    next
      case (Some cur)
      obtain o5 e5 where un: "unwind (set_buff cur (getvalue e4) e4) = (o5, e5)"
        by (cases "unwind (set_buff cur (getvalue e4) e4)")
      from unwind_frame [OF un] p4 have p5: "paths e5 = paths e" "o5 \<noteq> Raise NewBranch" by simp_all
      show ?thesis
      proof (cases o5)
        case (Raise x)
        with Cons.prems ex Ok Some un have "out = Raise x" "e' = e5" by (simp_all add: Let_def e3_def)
        with p5 Raise show ?thesis by auto
      next
        case Ok5: (Ok u5)
        with Cons.prems ex Ok Some un have "compile_paths func rest e5 = (out, e')"
          by (simp add: Let_def e3_def)
        from Cons.IH [OF this] p5 show ?thesis by (auto split: if_splits)
      qed
    qed
  qed
qed

lemma branch_when_compiling_find_branches:
  "find_branches (branch_when_compiling c) (Engine\<lparr>state := STATE_BUILDING_BRANCHES\<rparr>)
   = Some (Ok (),
     \<lparr>buffer = [], state = STATE_BUILDING_BRANCHES, stack = [],
      current_block = None, state_blocks = Map.empty, path_stack = [], blocks = [],
      paths = [[]], loops = [], path_id = 1, current_path = [], branch_id = 0\<rparr>)"
  by (simp add: find_branches_def Engine_def find_loop.simps branch_when_compiling_def
      terminal_paths_def last_slice_def sort_reverse_def Let_def)

lemma branch_when_compiling_compile:
  "compile (branch_when_compiling c) Engine = Some (Raise NewBranch,
     \<lparr>buffer = [], state = STATE_IDLE, stack = [],
      current_block = Some 0, state_blocks = Map.empty, path_stack = [], blocks = [EngineBlock],
      paths = [[], [DBool True], [DBool False]], loops = [], path_id = 1, current_path = [], branch_id = 0\<rparr>)"
  by (simp add: compile_def compile_body_def branch_when_compiling_find_branches Let_def)
     (simp add: branch_when_compiling_def branch_def reset_def)

text \<open>
  C5, as the code has it. The escape signal raised during discovery never leaves
  \<open>_find_branches\<close>. There is no separate internal-consistency error: a \<open>branch\<close> asked
  beyond the recorded path in the compile phase raises that same signal, \<open>NewBranch\<close>, and
  \<open>compile\<close> passes it to its caller. When that happens, discovery had completed, the
  two continuations of the path being compiled have been appended to the path list, and
  the engine is back in state Idle.
\<close>

theorem escape_signal_scope:
  "(\<exists>out e1. find_branches func e = Some (out, e1) \<and> out \<noteq> Raise NewBranch)
   \<and> (compile func e = Some (Raise NewBranch, e') \<longrightarrow>
        (\<exists>e1 p. find_branches func (e\<lparr>state := STATE_BUILDING_BRANCHES\<rparr>) = Some (Ok (), e1)
           \<and> p \<in> set (paths e1)
           \<and> paths e' = paths e1 @ [p @ [DBool True], p @ [DBool False]]
           \<and> state e' = STATE_IDLE))"
proof (intro conjI impI)
  show "\<exists>out e1. find_branches func e = Some (out, e1) \<and> out \<noteq> Raise NewBranch"
    by (rule find_branches_total)
  assume c: "compile func e = Some (Raise NewBranch, e')"
  obtain out e1 where fb: "find_branches func (e\<lparr>state := STATE_BUILDING_BRANCHES\<rparr>) = Some (out, e1)"
    and nn: "out \<noteq> Raise NewBranch"
    using find_branches_total by blast
  show "\<exists>e1 p. find_branches func (e\<lparr>state := STATE_BUILDING_BRANCHES\<rparr>) = Some (Ok (), e1)
           \<and> p \<in> set (paths e1)
           \<and> paths e' = paths e1 @ [p @ [DBool True], p @ [DBool False]]
           \<and> state e' = STATE_IDLE"
  proof (cases out)
    case (Raise x)
    with c fb nn show ?thesis by (simp add: compile_def compile_body_def)
  next
    case (Ok u)
    define e5 where "e5 = e1\<lparr>state := STATE_COMPILING, state_blocks := Map.empty,
        current_block := Some (length (blocks e1)), blocks := blocks e1 @ [EngineBlock]\<rparr>"
    obtain o6 e6 where cp: "compile_paths func (paths e1) e5 = (o6, e6)"
      by (cases "compile_paths func (paths e1) e5")
    from c fb Ok cp have "o6 = Raise NewBranch" "e' = e6\<lparr>state := STATE_IDLE\<rparr>"
      by (auto simp: compile_def compile_body_def Let_def e5_def split: result.splits)
    with compile_paths_frame [OF cp] fb Ok show ?thesis
      by (auto simp: e5_def)
  qed
qed

theorem escape_signal_scope_witness:
  "compile (branch_when_compiling ''c'') Engine = Some (Raise NewBranch,
     \<lparr>buffer = [], state = STATE_IDLE, stack = [],
      current_block = Some 0, state_blocks = Map.empty, path_stack = [], blocks = [EngineBlock],
      paths = [[], [DBool True], [DBool False]], loops = [], path_id = 1, current_path = [],
      branch_id = 0\<rparr>)
   \<and> (\<exists>e1 p. find_branches (branch_when_compiling ''c'') (Engine\<lparr>state := STATE_BUILDING_BRANCHES\<rparr>)
           = Some (Ok (), e1)
         \<and> p \<in> set (paths e1)
         \<and> [[], [DBool True], [DBool False]] = paths e1 @ [p @ [DBool True], p @ [DBool False]])"
  using escape_signal_scope [of "branch_when_compiling ''c''" Engine
     "\<lparr>buffer = [], state = STATE_IDLE, stack = [],
      current_block = Some 0, state_blocks = Map.empty, path_stack = [], blocks = [EngineBlock],
      paths = [[], [DBool True], [DBool False]], loops = [], path_id = 1, current_path = [],
      branch_id = 0\<rparr>"]
    branch_when_compiling_compile [of "''c''"]
  by simp

text \<open>
  C5 as stated fails: for a routine that asks for a decision only in the compile phase,
  \<open>compile\<close> raises the discovery escape signal to its caller, and the path list has
  been extended by the two continuations.
\<close>

theorem branch_when_compiling_escapes:
  "compile (branch_when_compiling ''c'') Engine = Some (Raise NewBranch,
     \<lparr>buffer = [], state = STATE_IDLE, stack = [],
      current_block = Some 0, state_blocks = Map.empty, path_stack = [], blocks = [EngineBlock],
      paths = [[], [DBool True], [DBool False]], loops = [], path_id = 1, current_path = [],
      branch_id = 0\<rparr>)"
  by (rule branch_when_compiling_compile)

subsection \<open>Blocks shared between call sites\<close>

lemma push_kept: "push k e = (out, e') \<Longrightarrow> entries_kept e e'"
  by (auto simp: push_def entries_kept_def set_buff_def reset_def Let_def split: option.splits)

lemma pop_kept: "pop e = (out, e') \<Longrightarrow> entries_kept e e'"
  by (auto simp: pop_def entries_kept_def set_buff_def reset_def write_str_def Let_def
      split: option.splits if_splits)

lemma set_jump_state_blocks [simp]: "state_blocks (set_jump b ofs t e) = state_blocks e"
  by (simp add: set_jump_def split: option.splits)

lemma write_value_state_blocks [simp]: "state_blocks (write_value v sz e) = state_blocks e"
  by (simp add: write_value_def write_str_def)

lemma branch_kept:
  assumes "branch c e = (out, e')"
  shows "entries_kept e e'"
  using assms
proof (cases rule: branch_cases)
  case beyond
  then show ?thesis by (simp add: entries_kept_def)
next
  case discovering
  then show ?thesis by (simp add: entries_kept_def)
next
  case (push_raised x)
  from push_kept [OF push_raised(3)] show ?thesis by (simp add: entries_kept_def)
next
  case (compiling e4 e5)
  from push_kept [OF compiling(3)] compiling(4,5) show ?thesis by (simp add: entries_kept_def)
qed

lemma call_enter_kept:
  assumes "call_enter f e = (out, e')"
  shows "entries_kept e e'"
  using assms
proof (cases rule: call_enter_cases)
  case discovering
  then show ?thesis by (simp add: entries_kept_def)
next
  case (push_raised x)
  from push_kept [OF push_raised(2)] show ?thesis by (simp add: entries_kept_def)
next
  case (compiling e2)
  from push_kept [OF compiling(2)] compiling(3) show ?thesis by (simp add: entries_kept_def)
qed

lemma call_exit_kept: "call_exit e = (out, e') \<Longrightarrow> entries_kept e e'"
  by (auto simp: call_exit_def split: if_splits dest: pop_kept) (simp add: entries_kept_def)

lemma exec_kept: "exec r e = (out, e') \<Longrightarrow> entries_kept e e'"
proof (rule exec_preserves [where R = entries_kept])
  show "entries_kept a a" for a by (simp add: entries_kept_def)
  show "entries_kept a b \<Longrightarrow> entries_kept b c \<Longrightarrow> entries_kept a c" for a b c
    by (simp add: entries_kept_def)
  show "entries_kept a (write_str s a)" for s a by (simp add: entries_kept_def write_str_def)
  show "entries_kept a (write_value v sz a)" for v sz a by (simp add: entries_kept_def)
qed (erule branch_kept call_enter_kept call_exit_kept)+

lemma push_Ok:
  assumes "push k e = (Ok (), e')"
  obtains b where "current_block e = Some b"
    "path_stack e' = path_stack e @ [k]"
    "case state_blocks e (path_stack e @ [k]) of
       Some h \<Rightarrow> current_block e' = Some h \<and> state_blocks e' = state_blocks e
          \<and> blocks e' = (blocks e)[b := (blocks e ! b)\<lparr>buff := Some (buffer e)\<rparr>]
     | None \<Rightarrow> current_block e' = Some (length (blocks e))
          \<and> state_blocks e' = (state_blocks e)(path_stack e @ [k] \<mapsto> length (blocks e))
          \<and> blocks e' = (blocks e)[b := (blocks e ! b)\<lparr>buff := Some (buffer e)\<rparr>] @ [EngineBlock]"
  using assms
  by (auto simp: push_def set_buff_def reset_def getvalue_def Let_def split: option.splits)

lemma call_enter_wires:
  assumes c: "state e = STATE_COMPILING"
    and en: "call_enter f e = (Ok (), e')"
    and b: "current_block e = Some b" "b < length (blocks e)"
  shows "\<exists>h. state_blocks e' (path_stack e @ [KFunc f]) = Some h
           \<and> current_block e' = Some h
           \<and> jumps (blocks e' ! b) (tell e) = Some h
           \<and> (case state_blocks e (path_stack e @ [KFunc f]) of
                 Some h0 \<Rightarrow> h = h0 \<and> length (blocks e') = length (blocks e)
               | None \<Rightarrow> h = length (blocks e) \<and> length (blocks e') = Suc (length (blocks e)))"
  using en
proof (cases rule: call_enter_cases)
  case discovering
  with c show ?thesis by simp
next
  case (push_raised x)
  then show ?thesis by simp
next
  case (compiling e2)
  define e1 where "e1 = write_value 0 (int pointer_size) e"
  have e1: "current_block e1 = Some b" "path_stack e1 = path_stack e" "state_blocks e1 = state_blocks e"
    "blocks e1 = blocks e"
    using b by (simp_all add: e1_def write_value_def write_str_def)
  from compiling(2) have p: "push (KFunc f) e1 = (Ok (), e2)" by (simp add: e1_def)
  from p show ?thesis
  proof (cases rule: push_Ok)
    case (1 b')
    with e1 have bb: "b' = b" by simp
    show ?thesis
    proof (cases "state_blocks e (path_stack e @ [KFunc f])")
      case None
      with 1 e1 bb b compiling(3) show ?thesis
        by (simp add: set_jump_def nth_append)
    next
      case (Some h0)
      with 1 e1 bb b compiling(3) show ?thesis
        by (simp add: set_jump_def)
    qed
  qed
qed

lemma call_sites_find_branches:
  "find_branches call_sites (Engine\<lparr>state := STATE_BUILDING_BRANCHES\<rparr>)
   = Some (Ok (),
     \<lparr>buffer = ''xxx'', state = STATE_BUILDING_BRANCHES, stack = [],
      current_block = None, state_blocks = Map.empty, path_stack = [], blocks = [],
      paths = [[]], loops = [], path_id = 1, current_path = [], branch_id = 0\<rparr>)"
  by (simp add: find_branches_def Engine_def find_loop.simps call_sites_def sub_f_def
      call_enter_def call_exit_def write_str_def
      terminal_paths_def last_slice_def sort_reverse_def Let_def)

lemma call_sites_compile_paths:
  "compile_paths call_sites [[]]
     \<lparr>buffer = ''xxx'', state = STATE_COMPILING, stack = [],
      current_block = Some 0, state_blocks = Map.empty, path_stack = [],
      blocks = [EngineBlock], paths = [[]], loops = [],
      path_id = Suc 0, current_path = [], branch_id = 0\<rparr>
   = (Ok (),
     \<lparr>buffer = replicate 12 (CHR 0x00), state = STATE_COMPILING, stack = [],
      current_block = Some 0,
      state_blocks = [[KFunc 7] \<mapsto> 1, [KFunc 8] \<mapsto> 2, [KFunc 8, KFunc 7] \<mapsto> 3],
      path_stack = [],
      blocks = [\<lparr>buff = Some (replicate 12 (CHR 0x00)), jumps = [0 \<mapsto> 1, 4 \<mapsto> 2, 8 \<mapsto> 1], offset = -1\<rparr>,
                \<lparr>buff = Some ''x'', jumps = Map.empty, offset = -1\<rparr>,
                \<lparr>buff = Some (replicate 4 (CHR 0x00)), jumps = [0 \<mapsto> 3], offset = -1\<rparr>,
                \<lparr>buff = Some ''x'', jumps = Map.empty, offset = -1\<rparr>],
      paths = [[]], loops = [], path_id = 1, current_path = [], branch_id = 0\<rparr>)"
  by (simp add: call_sites_def sub_f_def engine_defs Let_def numeral_eq_Suc)

lemma call_sites_compile:
  "compile call_sites Engine = Some (Ok 0,
     \<lparr>buffer = replicate 12 (CHR 0x00), state = STATE_IDLE, stack = [],
      current_block = Some 0,
      state_blocks = [[KFunc 7] \<mapsto> 1, [KFunc 8] \<mapsto> 2, [KFunc 8, KFunc 7] \<mapsto> 3],
      path_stack = [],
      blocks = [\<lparr>buff = Some (replicate 12 (CHR 0x00)), jumps = [0 \<mapsto> 1, 4 \<mapsto> 2, 8 \<mapsto> 1], offset = -1\<rparr>,
                \<lparr>buff = Some ''x'', jumps = Map.empty, offset = -1\<rparr>,
                \<lparr>buff = Some (replicate 4 (CHR 0x00)), jumps = [0 \<mapsto> 3], offset = -1\<rparr>,
                \<lparr>buff = Some ''x'', jumps = Map.empty, offset = -1\<rparr>],
      paths = [[]], loops = [], path_id = 1, current_path = [], branch_id = 0\<rparr>)"
  by (simp add: compile_def compile_body_def call_sites_find_branches call_sites_compile_paths
      Let_def del: compile_paths.simps)

lemma at_root_first_call: "call_enter 7 at_root = (Ok (),
  \<lparr>buffer = [], state = STATE_COMPILING, stack = [0],
     current_block = Some 1, state_blocks = [[KFunc 7] \<mapsto> 1], path_stack = [KFunc 7],
     blocks = [\<lparr>buff = Some (replicate 4 (CHR 0x00)), jumps = [0 \<mapsto> 1], offset = - 1\<rparr>, EngineBlock],
     paths = [], loops = [], path_id = 0, current_path = [], branch_id = 0\<rparr>)"
  by (simp add: at_root_def Engine_def engine_defs Let_def numeral_eq_Suc)

lemma at_root_after_call: "call_exit (snd (exec sub_f (snd (call_enter 7 at_root)))) = (Ok (),
  \<lparr>buffer = replicate 4 (CHR 0x00), state = STATE_COMPILING, stack = [],
     current_block = Some 0, state_blocks = [[KFunc 7] \<mapsto> 1], path_stack = [],
     blocks = [\<lparr>buff = Some (replicate 4 (CHR 0x00)), jumps = [0 \<mapsto> 1], offset = - 1\<rparr>,
               \<lparr>buff = Some ''x'', jumps = Map.empty, offset = - 1\<rparr>],
     paths = [], loops = [], path_id = 0, current_path = [], branch_id = 0\<rparr>)"
  by (simp add: at_root_first_call sub_f_def) (simp add: engine_defs Let_def numeral_eq_Suc)

lemma at_root_second_call:
  "call_enter 7
    \<lparr>buffer = replicate 4 (CHR 0x00), state = STATE_COMPILING, stack = [],
     current_block = Some 0, state_blocks = [[KFunc 7] \<mapsto> 1], path_stack = [],
     blocks = [\<lparr>buff = Some (replicate 4 (CHR 0x00)), jumps = [0 \<mapsto> 1], offset = - 1\<rparr>,
               \<lparr>buff = Some ''x'', jumps = Map.empty, offset = - 1\<rparr>],
     paths = [], loops = [], path_id = 0, current_path = [], branch_id = 0\<rparr>
   = (Ok (),
    \<lparr>buffer = [], state = STATE_COMPILING, stack = [0],
     current_block = Some 1, state_blocks = [[KFunc 7] \<mapsto> 1], path_stack = [KFunc 7],
     blocks = [\<lparr>buff = Some (replicate 8 (CHR 0x00)), jumps = [0 \<mapsto> 1, 4 \<mapsto> 1], offset = - 1\<rparr>,
               \<lparr>buff = Some ''x'', jumps = Map.empty, offset = - 1\<rparr>],
     paths = [], loops = [], path_id = 0, current_path = [], branch_id = 0\<rparr>)"
  by (simp add: engine_defs Let_def numeral_eq_Suc)

text \<open>
  C3, as the code has it. A block is registered in \<open>state_blocks\<close> under the whole
  decision context, \<open>tuple(path_stack)\<close>, which ends with the subroutine, and entries are
  never changed while a routine runs (lemma \<open>exec_kept\<close>). So two call sites of the same
  subroutine object that are reached in the same decision context are wired to one and the
  same block, and the second call allocates no block.
\<close>

theorem call_sites_share_block_in_context:
  assumes "state e1 = STATE_COMPILING" "state e2 = STATE_COMPILING"
    and "current_block e1 = Some b1" "b1 < length (blocks e1)"
    and "current_block e2 = Some b2" "b2 < length (blocks e2)"
    and first: "call_enter f e1 = (Ok (), e1')"
    and kept: "entries_kept e1' e2"
    and ctx: "path_stack e2 = path_stack e1"
    and second: "call_enter f e2 = (Ok (), e2')"
  shows "\<exists>h. jumps (blocks e1' ! b1) (tell e1) = Some h
           \<and> jumps (blocks e2' ! b2) (tell e2) = Some h
           \<and> current_block e1' = Some h \<and> current_block e2' = Some h
           \<and> length (blocks e2') = length (blocks e2)"
proof -
  from call_enter_wires [OF assms(1) first assms(3,4)] obtain h where
    h: "state_blocks e1' (path_stack e1 @ [KFunc f]) = Some h" "current_block e1' = Some h"
       "jumps (blocks e1' ! b1) (tell e1) = Some h"
    by blast
  from kept h(1) ctx have "state_blocks e2 (path_stack e2 @ [KFunc f]) = Some h"
    by (simp add: entries_kept_def)
  with call_enter_wires [OF assms(2) second assms(5,6)] h show ?thesis
    by auto
qed

theorem call_sites_share_block_in_context_witness:
  "state at_root = STATE_COMPILING
   \<and> state (snd (call_exit (snd (exec sub_f (snd (call_enter 7 at_root)))))) = STATE_COMPILING
   \<and> current_block at_root = Some 0 \<and> 0 < length (blocks at_root)
   \<and> current_block (snd (call_exit (snd (exec sub_f (snd (call_enter 7 at_root)))))) = Some 0
   \<and> 0 < length (blocks (snd (call_exit (snd (exec sub_f (snd (call_enter 7 at_root)))))))
   \<and> fst (call_enter 7 at_root) = Ok ()
   \<and> entries_kept (snd (call_enter 7 at_root))
        (snd (call_exit (snd (exec sub_f (snd (call_enter 7 at_root))))))
   \<and> path_stack (snd (call_exit (snd (exec sub_f (snd (call_enter 7 at_root)))))) = path_stack at_root
   \<and> fst (call_enter 7 (snd (call_exit (snd (exec sub_f (snd (call_enter 7 at_root))))))) = Ok ()
   \<and> jumps (blocks (snd (call_enter 7 at_root)) ! 0) 0 = Some 1
   \<and> jumps (blocks (snd (call_enter 7
          (snd (call_exit (snd (exec sub_f (snd (call_enter 7 at_root)))))))) ! 0) 4 = Some 1"
proof -
  define A1 where "A1 = snd (call_enter 7 at_root)"
  define A2 where "A2 = snd (call_exit (snd (exec sub_f A1)))"
  define A3 where "A3 = snd (call_enter 7 A2)"
  have a1: "A1 = \<lparr>buffer = [], state = STATE_COMPILING, stack = [0],
     current_block = Some 1, state_blocks = [[KFunc 7] \<mapsto> 1], path_stack = [KFunc 7],
     blocks = [\<lparr>buff = Some (replicate 4 (CHR 0x00)), jumps = [0 \<mapsto> 1], offset = - 1\<rparr>, EngineBlock],
     paths = [], loops = [], path_id = 0, current_path = [], branch_id = 0\<rparr>"
    by (simp only: A1_def at_root_first_call snd_conv)
  have a2: "A2 = \<lparr>buffer = replicate 4 (CHR 0x00), state = STATE_COMPILING, stack = [],
     current_block = Some 0, state_blocks = [[KFunc 7] \<mapsto> 1], path_stack = [],
     blocks = [\<lparr>buff = Some (replicate 4 (CHR 0x00)), jumps = [0 \<mapsto> 1], offset = - 1\<rparr>,
               \<lparr>buff = Some ''x'', jumps = Map.empty, offset = - 1\<rparr>],
     paths = [], loops = [], path_id = 0, current_path = [], branch_id = 0\<rparr>"
    by (simp only: A2_def A1_def at_root_after_call snd_conv)
  have a3: "A3 = \<lparr>buffer = [], state = STATE_COMPILING, stack = [0],
     current_block = Some 1, state_blocks = [[KFunc 7] \<mapsto> 1], path_stack = [KFunc 7],
     blocks = [\<lparr>buff = Some (replicate 8 (CHR 0x00)), jumps = [0 \<mapsto> 1, 4 \<mapsto> 1], offset = - 1\<rparr>,
               \<lparr>buff = Some ''x'', jumps = Map.empty, offset = - 1\<rparr>],
     paths = [], loops = [], path_id = 0, current_path = [], branch_id = 0\<rparr>"
    unfolding A3_def a2 by (simp only: at_root_second_call snd_conv)
  have h1: "state at_root = STATE_COMPILING" "current_block at_root = Some 0"
    "0 < length (blocks at_root)" "tell at_root = 0" "path_stack at_root = []"
    by (simp_all add: at_root_def Engine_def tell_def)
  have h2: "state A2 = STATE_COMPILING" "current_block A2 = Some 0" "0 < length (blocks A2)"
    "path_stack A2 = path_stack at_root" "tell A2 = 4"
    by (simp_all add: a2 h1 tell_def)
  have c1: "call_enter 7 at_root = (Ok (), A1)"
    by (simp only: a1 at_root_first_call)
  have c2: "call_enter 7 A2 = (Ok (), A3)"
    unfolding a3 a2 by (simp only: at_root_second_call)
  have k: "entries_kept A1 A2"
    by (simp add: a1 a2 entries_kept_def)
  from call_sites_share_block_in_context [OF h1(1) h2(1) h1(2,3) h2(2,3) c1 k h2(4) c2]
  have "\<exists>h. jumps (blocks A1 ! 0) 0 = Some h \<and> jumps (blocks A3 ! 0) 4 = Some h"
    by (auto simp: h1 h2)
  then have "jumps (blocks A1 ! 0) 0 = Some 1 \<and> jumps (blocks A3 ! 0) 4 = Some 1"
    by (simp add: a1 a3)
  with h1 h2 c1 c2 k have "state at_root = STATE_COMPILING
   \<and> state A2 = STATE_COMPILING
   \<and> current_block at_root = Some 0 \<and> 0 < length (blocks at_root)
   \<and> current_block A2 = Some 0
   \<and> 0 < length (blocks A2)
   \<and> fst (call_enter 7 at_root) = Ok ()
   \<and> entries_kept A1 A2
   \<and> path_stack A2 = path_stack at_root
   \<and> fst (call_enter 7 A2) = Ok ()
   \<and> jumps (blocks A1 ! 0) 0 = Some 1
   \<and> jumps (blocks A3 ! 0) 4 = Some 1"
    by simp
  then show ?thesis
    unfolding A3_def A2_def A1_def .
qed

text \<open>
  C3 as stated fails: call sites of the same subroutine object in different decision
  contexts get different blocks. In \<open>call_sites\<close> the call at offset 0 of the root block
  is wired to block 1, the call from inside subroutine 8 (block 2) to block 3.
\<close>

theorem call_sites_in_contexts_differ:
  "jumps (blocks (snd (the (compile call_sites Engine))) ! 0) 0 = Some 1
   \<and> jumps (blocks (snd (the (compile call_sites Engine))) ! 2) 0 = Some 3"
  by (simp add: call_sites_compile)

subsection \<open>Block equality\<close>

lemma eq_loop_end: "\<not> idx < length sb \<Longrightarrow> eq_loop r sj oj sb ob idx = Ok True"
  by (subst eq_loop.simps) simp

lemma eq_loop_byte:
  "idx < length sb \<Longrightarrow> sj idx = None \<Longrightarrow>
   eq_loop r sj oj sb ob idx =
     (if sb ! idx \<noteq> ob ! idx then Ok False else eq_loop r sj oj sb ob (idx + 1))"
  by (subst eq_loop.simps) simp

lemma eq_loop_slot:
  "idx < length sb \<Longrightarrow> sj idx = Some t1 \<Longrightarrow>
   eq_loop r sj oj sb ob idx =
     (case oj idx of
        None \<Rightarrow> Ok False
      | Some t2 \<Rightarrow>
          (case r t1 t2 of
             Raise x \<Rightarrow> Raise x
           | Ok differ \<Rightarrow>
               if differ then Ok False else eq_loop r sj oj sb ob (idx + pointer_size)))"
  by (subst eq_loop.simps) simp

lemma block_eq_refl: "block_eq (Suc limit) bs b b = Ok True"
  by simp

lemma zeros_and_call_find_branches:
  "find_branches zeros_and_call (Engine\<lparr>state := STATE_BUILDING_BRANCHES\<rparr>)
   = Some (Ok (),
     \<lparr>buffer = ''x'', state = STATE_BUILDING_BRANCHES, stack = [],
      current_block = None, state_blocks = Map.empty, path_stack = [], blocks = [],
      paths = [[]], loops = [], path_id = 1, current_path = [], branch_id = 0\<rparr>)"
  by (simp add: find_branches_def Engine_def find_loop.simps zeros_and_call_def
      call_enter_def call_exit_def write_str_def unknown_def
      terminal_paths_def last_slice_def sort_reverse_def Let_def)

lemma zeros_and_call_compile_paths:
  "compile_paths zeros_and_call [[]]
     \<lparr>buffer = ''x'', state = STATE_COMPILING, stack = [],
      current_block = Some 0, state_blocks = Map.empty, path_stack = [],
      blocks = [EngineBlock], paths = [[]], loops = [],
      path_id = Suc 0, current_path = [], branch_id = 0\<rparr>
   = (Ok (),
     \<lparr>buffer = replicate 8 (CHR 0x00), state = STATE_COMPILING, stack = [],
      current_block = Some 0,
      state_blocks = [[KFunc 1] \<mapsto> 1, [KFunc 2] \<mapsto> 2, [KFunc 2, KFunc 3] \<mapsto> 3],
      path_stack = [],
      blocks = [\<lparr>buff = Some (replicate 8 (CHR 0x00)), jumps = [0 \<mapsto> 1, 4 \<mapsto> 2], offset = -1\<rparr>,
                \<lparr>buff = Some (replicate 4 (CHR 0x00)), jumps = Map.empty, offset = -1\<rparr>,
                \<lparr>buff = Some (replicate 4 (CHR 0x00)), jumps = [0 \<mapsto> 3], offset = -1\<rparr>,
                \<lparr>buff = Some ''x'', jumps = Map.empty, offset = -1\<rparr>],
      paths = [[]], loops = [], path_id = 1, current_path = [], branch_id = 0\<rparr>)"
  by (simp add: zeros_and_call_def engine_defs Let_def numeral_eq_Suc)

lemma zeros_and_call_compile:
  "compile zeros_and_call Engine = Some (Ok 0,
     \<lparr>buffer = replicate 8 (CHR 0x00), state = STATE_IDLE, stack = [],
      current_block = Some 0,
      state_blocks = [[KFunc 1] \<mapsto> 1, [KFunc 2] \<mapsto> 2, [KFunc 2, KFunc 3] \<mapsto> 3],
      path_stack = [],
      blocks = [\<lparr>buff = Some (replicate 8 (CHR 0x00)), jumps = [0 \<mapsto> 1, 4 \<mapsto> 2], offset = -1\<rparr>,
                \<lparr>buff = Some (replicate 4 (CHR 0x00)), jumps = Map.empty, offset = -1\<rparr>,
                \<lparr>buff = Some (replicate 4 (CHR 0x00)), jumps = [0 \<mapsto> 3], offset = -1\<rparr>,
                \<lparr>buff = Some ''x'', jumps = Map.empty, offset = -1\<rparr>],
      paths = [[]], loops = [], path_id = 1, current_path = [], branch_id = 0\<rparr>)"
  by (simp add: compile_def compile_body_def zeros_and_call_find_branches
      zeros_and_call_compile_paths Let_def del: compile_paths.simps)

text \<open>
  C4. Two blocks are equal iff their contents have the same length and every byte matches
  except inside placeholder regions, where the linked blocks must be equal. The code
  scans the jump map of the left operand only: where only the right operand records a
  slot, it compares bytes. Of the blocks \<open>compile\<close> builds for \<open>zeros_and_call\<close>,
  block 1 (subroutine 1) holds four literal zero bytes and no jump, block 2 (subroutine 2)
  holds one placeholder slot linked to block 3. Block 1 is found equal to block 2 although
  it has no jump edge where block 2 has one; asked the other way round the same two
  blocks are unequal.
\<close>

theorem block_eq_ignores_jumps_of_other:
  "buff (blocks (snd (the (compile zeros_and_call Engine))) ! 1) = Some (replicate 4 (CHR 0x00))
   \<and> jumps (blocks (snd (the (compile zeros_and_call Engine))) ! 1) 0 = None
   \<and> buff (blocks (snd (the (compile zeros_and_call Engine))) ! 2) = Some (replicate 4 (CHR 0x00))
   \<and> jumps (blocks (snd (the (compile zeros_and_call Engine))) ! 2) 0 = Some 3
   \<and> block_eq 3 (blocks (snd (the (compile zeros_and_call Engine)))) 1 2 = Ok True
   \<and> block_eq 3 (blocks (snd (the (compile zeros_and_call Engine)))) 2 1 = Ok False"
  by (simp add: zeros_and_call_compile numeral_eq_Suc eq_loop_end eq_loop_byte eq_loop_slot
      negate_def)
subsection \<open>Assigning through the symbol collections\<close>

lemma symbol_name_own:
  assumes "symbol_name n"
  shows "(own_attribute n :: 'v attribute option) = None"
proof -
  from assms have e: "n \<noteq> ''engine''" by (simp add: symbol_name_def)
  have u: "n \<noteq> CHR ''_'' # rest" for rest
    using assms by (auto simp: symbol_name_def)
  from u have "n \<noteq> ''_cache''" "n \<noteq> ''_inst_class''" "n \<noteq> ''_create''" "n \<noteq> ''__init__''"
    "n \<noteq> ''__getattr__''" "n \<noteq> ''__setattr__''" "n \<noteq> ''__dir__''"
    by blast+
  with e show ?thesis by (simp add: own_attribute_def)
qed

text \<open>
  C9, as the code has it. Assigning to a function-kind collection fails with
  \<open>TypeError\<close> for every name and value and changes nothing. Assigning to a
  variable-kind collection succeeds for every value and every name that is not
  \<open>engine\<close> and does not begin with an underscore, and a later read of that name
  yields the handle whose value is the assigned one.
\<close>

theorem collection_assignment:
  "setattr_functions n v c = (Raise TypeError, c)
   \<and> (symbol_name n \<longrightarrow>
        (\<exists>c'. setattr_variables n v c = (Ok (), c')
           \<and> (\<exists>var. getattr n c' = (Handle var, c') \<and> var_value var = Some v)))"
  by (simp add: setattr_functions_def setattr_variables_def getattr_def getattr_hook_def Let_def
      symbol_name_own split: option.splits)

theorem collection_assignment_witness:
  "symbol_name ''foo''
   \<and> setattr_functions ''foo'' (5::int) VariableCollection = (Raise TypeError, VariableCollection)
   \<and> (\<exists>c'. setattr_variables ''foo'' (5::int) VariableCollection = (Ok (), c')
           \<and> (\<exists>var. getattr ''foo'' c' = (Handle var, c') \<and> var_value var = Some 5))"
proof -
  have "symbol_name ''foo''" by (simp add: symbol_name_def)
  with collection_assignment [of "''foo''" "5::int" VariableCollection] show ?thesis by blast
qed

text \<open>
  C9 as stated fails for the names the collection object itself holds: \<open>_cache\<close> is
  found by the normal lookup, which yields the dict, and a dict takes no attribute
  \<open>value\<close>.
\<close>

theorem cache_name_assignment_fails: "fst (setattr_variables ''_cache'' (5::int) VariableCollection) = Raise AttributeError"
  by (simp add: setattr_variables_def getattr_def own_attribute_def)

subsection \<open>Fixed-width values\<close>

lemma and_255_mod: "(k::int) AND 255 = k mod 256"
proof -
  have "(255::int) = mask 8" by (simp add: mask_eq_exp_minus_1)
  then show ?thesis by (simp only: flip: take_bit_eq_mask) (simp add: take_bit_eq_mod)
qed

lemma value_byte_code: "of_char (value_byte v i) = (v div 2 ^ (8 * i)) mod 256"
  by (simp add: value_byte_def and_255_mod drop_bit_eq_div mult.commute)

text \<open>
  C10. For every integer value and every size \<open>\<ge> 0\<close>, \<open>write_value\<close> appends exactly
  \<open>size\<close> bytes to the buffer, and the i-th appended byte (0-based) is
  \<open>(value >> (8*i)) mod 256\<close>: least significant byte first, wider values truncated.
\<close>

theorem write_value_little_endian:
  assumes "0 \<le> sz"
  shows "\<exists>ys. buffer (write_value v sz e) = buffer e @ ys
           \<and> int (length ys) = sz
           \<and> (\<forall>i < length ys. of_char (ys ! i) = (v div 2 ^ (8 * i)) mod 256)"
proof (intro exI conjI)
  show "buffer (write_value v sz e) = buffer e @ value_bytes v sz"
    by (simp add: write_value_def write_str_def)
  show "int (length (value_bytes v sz)) = sz"
    using assms by (simp add: value_bytes_def)
  show "\<forall>i < length (value_bytes v sz).
          of_char (value_bytes v sz ! i) = (v div 2 ^ (8 * i)) mod 256"
    by (simp add: value_bytes_def value_byte_code)
qed

theorem write_value_little_endian_witness:
  "(0::int) \<le> 2 \<and> (\<exists>ys. buffer (write_value 258 2 Engine) = buffer Engine @ ys
      \<and> int (length ys) = 2
      \<and> (\<forall>i < length ys. of_char (ys ! i) = ((258::int) div 2 ^ (8 * i)) mod 256))"
  using write_value_little_endian [of 2 258 Engine] by simp

end
